theory Spec2Isabelle
  imports Main "HOL-Library.Monad_Syntax"
begin

section \<open>Tokens and the lexer\<close>

text \<open>
  The macros \<open>LPAREN\<close> .. \<open>ATOM\<close> of \<open>simple_parse.c\<close> number the token types; here they
  are the constructors of a datatype. A \<open>struct token\<close> carries its type and its lexeme;
  the \<open>prev\<close>/\<open>next\<close> pointers of the doubly linked list are the positions in a HOL list,
  and a \<open>struct token *\<close> that walks the list forward (the parser's cursor, the lookahead
  pointer) is the suffix of the list that starts at the token pointed to; \<open>NULL\<close> is \<open>[]\<close>.

  A C string is modelled by the HOL string of its characters before the terminating NUL.
  Allocation is assumed to succeed (the \<open>malloc\<close> failure branches are not modelled).
\<close>

datatype token_type = LPAREN | RPAREN | EXP | MUL | DIV | ADD | SUB | ATOM

record token =
  tok_type :: token_type
  tok_string :: string

text \<open>\<open>isalpha\<close> and \<open>isdigit\<close> of \<open>ctype.h\<close> in the "C" locale (the program never calls
  \<open>setlocale\<close>): the ASCII letters and the ASCII decimal digits. A byte above 127 is
  neither.\<close>

definition isalpha :: "char \<Rightarrow> bool" where
  "isalpha c = (let n = (of_char c :: nat) in (65 \<le> n \<and> n \<le> 90) \<or> (97 \<le> n \<and> n \<le> 122))"

definition isdigit :: "char \<Rightarrow> bool" where
  "isdigit c = (let n = (of_char c :: nat) in 48 \<le> n \<and> n \<le> 57)"

text \<open>\<open>create_token\<close> copies \<open>token_len\<close> characters starting at \<open>init_char\<close>.\<close>

definition create_token :: "token_type \<Rightarrow> string \<Rightarrow> nat \<Rightarrow> token" where
  "create_token ty init_char token_len = \<lparr>tok_type = ty, tok_string = take token_len init_char\<rparr>"

text \<open>The only way \<open>input_lexer\<close> gives up: the \<open>default\<close> case of its \<open>switch\<close>, which
  prints \<open>Invalid input!\<close> and returns \<open>NULL\<close>.\<close>

datatype lex_error = InvalidCharacter

text \<open>
  The \<open>while (*user_input != '\0')\<close> loop of \<open>input_lexer\<close>. The first argument is the list
  built so far (the C variable \<open>result\<close> points to its last token, and the final rewind
  over \<open>prev\<close> returns its first one); the second is what is left of the input. The inner
  loops \<open>while (isalpha(*user_input)) ++user_input\<close> are \<open>takeWhile\<close>/\<open>dropWhile\<close>.
\<close>

function lexer_loop :: "token list \<Rightarrow> string \<Rightarrow> lex_error + token list" where
  "lexer_loop result [] = Inr result"
| "lexer_loop result (c # cs) =
     (if isalpha c then
        lexer_loop (result @ [create_token ATOM (c # cs) (Suc (length (takeWhile isalpha cs)))])
          (dropWhile isalpha cs)
      else if isdigit c then
        lexer_loop (result @ [create_token ATOM (c # cs) (Suc (length (takeWhile isdigit cs)))])
          (dropWhile isdigit cs)
      else if c = CHR ''('' then lexer_loop (result @ [create_token LPAREN (c # cs) 1]) cs
      else if c = CHR '')'' then lexer_loop (result @ [create_token RPAREN (c # cs) 1]) cs
      else if c = CHR ''^'' then lexer_loop (result @ [create_token EXP (c # cs) 1]) cs
      else if c = CHR ''*'' then lexer_loop (result @ [create_token MUL (c # cs) 1]) cs
      else if c = CHR ''/'' then lexer_loop (result @ [create_token DIV (c # cs) 1]) cs
      else if c = CHR ''+'' then lexer_loop (result @ [create_token ADD (c # cs) 1]) cs
      else if c = CHR ''-'' then lexer_loop (result @ [create_token SUB (c # cs) 1]) cs
      else Inl InvalidCharacter)"
  by pat_completeness auto

termination lexer_loop
proof (relation "measure (\<lambda>(result, s). length s)")
  fix result :: "token list" and c :: char and cs :: string
  have "length (dropWhile isalpha cs) \<le> length cs" by (rule length_dropWhile_le)
  then show "((result @ [create_token ATOM (c # cs) (Suc (length (takeWhile isalpha cs)))],
               dropWhile isalpha cs), result, c # cs) \<in> measure (\<lambda>(result, s). length s)"
    by simp
  have "length (dropWhile isdigit cs) \<le> length cs" by (rule length_dropWhile_le)
  then show "((result @ [create_token ATOM (c # cs) (Suc (length (takeWhile isdigit cs)))],
               dropWhile isdigit cs), result, c # cs) \<in> measure (\<lambda>(result, s). length s)"
    by simp
qed simp_all

definition input_lexer :: "string \<Rightarrow> lex_error + token list" where
  "input_lexer user_input = (if user_input = [] then Inr [] else lexer_loop [] user_input)"

section \<open>Parse trees\<close>

text \<open>
  The macros \<open>NEXPR\<close> .. \<open>NEPSILON\<close> tag the nodes. A \<open>struct pt_node\<close> has the four
  members \<open>type\<close>, \<open>string\<close>, \<open>num_childs\<close> and \<open>child_ptrs\<close>; a child pointer may be
  \<open>NULL\<close>, which is \<open>None\<close>.
\<close>

datatype node_type = NEXPR | NeXPR | NEXPRP | NeXPRP | NEXPRPP | NEXPRPPP
  | NLPAREN | NRPAREN | NEXP | NMUL | NDIV | NADD | NSUB | NATOM | NEPSILON

datatype pt_node = Node (ntype: node_type) (nstring: string) (num_childs: nat)
  (child_ptrs: "pt_node option list")

text \<open>\<open>create_node\<close> allocates \<open>num_childs\<close> child slots; every caller then assigns each
  slot (\<open>result->child_ptrs[i] = ...\<close>, here \<open>set_child\<close>) before the node is returned.\<close>

definition create_node :: "node_type \<Rightarrow> string \<Rightarrow> nat \<Rightarrow> pt_node" where
  "create_node ty s n = Node ty s n (replicate n None)"

fun set_child :: "pt_node \<Rightarrow> nat \<Rightarrow> pt_node option \<Rightarrow> pt_node" where
  "set_child (Node ty s n cs) i c = Node ty s n (cs[i := c])"

section \<open>The recursive-descent parser\<close>

text \<open>
  Every parse function takes the cursor \<open>*lexed_in_ptr\<close> and returns the node pointer
  (\<open>None\<close> for \<open>NULL\<close>), the cursor it leaves behind, and the diagnostics it printed, in
  order. \<open>lexed_in_ptr\<close> itself is always the address of a variable, never \<open>NULL\<close>.
\<close>

datatype diag = Invalid_input | Failed_to_match token_type

type_synonym parse_result = "pt_node option \<times> token list \<times> diag list"

definition lparen :: "token list \<Rightarrow> parse_result" where
  "lparen ts = (case ts of
       [] \<Rightarrow> (None, [], [Failed_to_match LPAREN])
     | t # rest \<Rightarrow>
         if tok_type t = LPAREN then (Some (create_node NLPAREN (tok_string t) 0), rest, [])
         else (None, rest, [Failed_to_match LPAREN]))"

definition rparen :: "token list \<Rightarrow> parse_result" where
  "rparen ts = (case ts of
       [] \<Rightarrow> (None, [], [Failed_to_match RPAREN])
     | t # rest \<Rightarrow>
         if tok_type t = RPAREN then (Some (create_node NRPAREN (tok_string t) 0), rest, [])
         else (None, rest, [Failed_to_match RPAREN]))"

definition expo :: "token list \<Rightarrow> parse_result" where
  "expo ts = (case ts of
       [] \<Rightarrow> (None, [], [Failed_to_match EXP])
     | t # rest \<Rightarrow>
         if tok_type t = EXP then (Some (create_node NEXP (tok_string t) 0), rest, [])
         else (None, rest, [Failed_to_match EXP]))"

definition mul :: "token list \<Rightarrow> parse_result" where
  "mul ts = (case ts of
       [] \<Rightarrow> (None, [], [Failed_to_match MUL])
     | t # rest \<Rightarrow>
         if tok_type t = MUL then (Some (create_node NMUL (tok_string t) 0), rest, [])
         else (None, rest, [Failed_to_match MUL]))"

definition quo :: "token list \<Rightarrow> parse_result" where
  "quo ts = (case ts of
       [] \<Rightarrow> (None, [], [Failed_to_match DIV])
     | t # rest \<Rightarrow>
         if tok_type t = DIV then (Some (create_node NDIV (tok_string t) 0), rest, [])
         else (None, rest, [Failed_to_match DIV]))"

definition add :: "token list \<Rightarrow> parse_result" where
  "add ts = (case ts of
       [] \<Rightarrow> (None, [], [Failed_to_match ADD])
     | t # rest \<Rightarrow>
         if tok_type t = ADD then (Some (create_node NADD (tok_string t) 0), rest, [])
         else (None, rest, [Failed_to_match ADD]))"

definition sub :: "token list \<Rightarrow> parse_result" where
  "sub ts = (case ts of
       [] \<Rightarrow> (None, [], [Failed_to_match SUB])
     | t # rest \<Rightarrow>
         if tok_type t = SUB then (Some (create_node NSUB (tok_string t) 0), rest, [])
         else (None, rest, [Failed_to_match SUB]))"

definition atom :: "token list \<Rightarrow> parse_result" where
  "atom ts = (case ts of
       [] \<Rightarrow> (None, [], [Failed_to_match ATOM])
     | t # rest \<Rightarrow>
         if tok_type t = ATOM then (Some (create_node NATOM (tok_string t) 0), rest, [])
         else (None, rest, [Failed_to_match ATOM]))"

definition epsilon :: "pt_node option" where
  "epsilon = Some (create_node NEPSILON '''' 0)"

text \<open>The lookahead loop of \<open>exprpp\<close>:
  \<open>while (lookahead != NULL && lookahead->type != RPAREN) lookahead = lookahead->next\<close>.\<close>

fun lookahead_loop :: "token list \<Rightarrow> token list" where
  "lookahead_loop [] = []"
| "lookahead_loop (t # ts) = (if tok_type t \<noteq> RPAREN then lookahead_loop ts else t # ts)"

text \<open>The test \<open>p->next != NULL && p->next->type == EXP\<close> on a non-null token pointer \<open>p\<close>.\<close>

fun next_is_EXP :: "token list \<Rightarrow> bool" where
  "next_is_EXP (t # n # ts) = (tok_type n = EXP)"
| "next_is_EXP ts = False"

text \<open>
  The six parse functions, for the grammar of the source's comment:
  \<^verbatim>\<open>
  expr    ->  exprp Expr
  Expr    ->  + exprp Expr | - exprp Expr | epsilon
  exprp   ->  exprpp Exprp
  Exprp   ->  * exprpp Exprp | / exprpp Exprp | epsilon
  exprpp  ->  exprppp ^ exprpp | exprppp
  exprppp ->  atom | ( expr )
  \<close>
  A sub-parse that returns \<open>NULL\<close> is stored as it is in the child slot, and parsing goes
  on from wherever the cursor was left.
\<close>

function expr :: "token list \<Rightarrow> parse_result"
  and Expr :: "token list \<Rightarrow> parse_result"
  and exprp :: "token list \<Rightarrow> parse_result"
  and Exprp :: "token list \<Rightarrow> parse_result"
  and exprpp :: "token list \<Rightarrow> parse_result"
  and exprppp :: "token list \<Rightarrow> parse_result"
where
  "expr ts =
     (let (c0, ts1, m1) = exprp ts;
          (c1, ts2, m2) = Expr ts1
      in (Some (set_child (set_child (create_node NEXPR '''' 2) 0 c0) 1 c1), ts2, m1 @ m2))"
| "Expr [] = (Some (set_child (create_node NeXPR '''' 1) 0 epsilon), [], [])"
| "Expr (t # rest) =
     (if tok_type t = ADD \<or> tok_type t = SUB then
        (let (c0, ts1, m1) = (if tok_type t = ADD then add (t # rest) else sub (t # rest));
             (c1, ts2, m2) = exprp ts1;
             (c2, ts3, m3) = Expr ts2
         in (Some (set_child (set_child (set_child (create_node NeXPR '''' 3) 0 c0) 1 c1) 2 c2),
             ts3, m1 @ m2 @ m3))
      else (Some (set_child (create_node NeXPR '''' 1) 0 epsilon), t # rest, []))"
| "exprp ts =
     (let (c0, ts1, m1) = exprpp ts;
          (c1, ts2, m2) = Exprp ts1
      in (Some (set_child (set_child (create_node NEXPRP '''' 2) 0 c0) 1 c1), ts2, m1 @ m2))"
| "Exprp [] = (Some (set_child (create_node NeXPRP '''' 1) 0 epsilon), [], [])"
| "Exprp (t # rest) =
     (if tok_type t = MUL \<or> tok_type t = DIV then
        (let (c0, ts1, m1) = (if tok_type t = MUL then mul (t # rest) else quo (t # rest));
             (c1, ts2, m2) = exprpp ts1;
             (c2, ts3, m3) = Exprp ts2
         in (Some (set_child (set_child (set_child (create_node NeXPRP '''' 3) 0 c0) 1 c1) 2 c2),
             ts3, m1 @ m2 @ m3))
      else (Some (set_child (create_node NeXPRP '''' 1) 0 epsilon), t # rest, []))"
| "exprpp [] = (None, [], [])"
| "exprpp (t # rest) =
     (if tok_type t = ATOM then
        (if next_is_EXP (t # rest) then
           (let (c0, ts1, m1) = exprppp (t # rest);
                (c1, ts2, m2) = expo ts1;
                (c2, ts3, m3) = exprpp ts2
            in (Some (set_child (set_child (set_child (create_node NEXPRPP '''' 3) 0 c0) 1 c1) 2 c2),
                ts3, m1 @ m2 @ m3))
         else
           (let (c0, ts1, m1) = exprppp (t # rest)
            in (Some (set_child (create_node NEXPRPP '''' 1) 0 c0), ts1, m1)))
      else
        (let lookahead = lookahead_loop (t # rest) in
         if lookahead = [] then (None, t # rest, [Invalid_input])
         else if next_is_EXP lookahead then
           (let (c0, ts1, m1) = exprppp (t # rest);
                (c1, ts2, m2) = expo ts1;
                (c2, ts3, m3) = exprpp ts2
            in (Some (set_child (set_child (set_child (create_node NEXPRPP '''' 3) 0 c0) 1 c1) 2 c2),
                ts3, m1 @ m2 @ m3))
         else
           (let (c0, ts1, m1) = exprppp (t # rest)
            in (Some (set_child (create_node NEXPRPP '''' 1) 0 c0), ts1, m1))))"
| "exprppp [] = (None, [], [])"
| "exprppp (t # rest) =
     (if tok_type t = ATOM then
        (let (c0, ts1, m1) = atom (t # rest)
         in (Some (set_child (create_node NEXPRPPP '''' 1) 0 c0), ts1, m1))
      else
        (let (c0, ts1, m1) = lparen (t # rest);
             (c1, ts2, m2) = expr ts1;
             (c2, ts3, m3) = rparen ts2
         in (Some (set_child (set_child (set_child (create_node NEXPRPPP '''' 3) 0 c0) 1 c1) 2 c2),
             ts3, m1 @ m2 @ m3)))"
  by pat_completeness auto

text \<open>
  Termination. The recursion is nested (the cursor a call starts from is the one an earlier
  call returned), so the proof first shows, on the domain of the functions, that no parse
  function moves the cursor backwards and that \<open>exprppp\<close> consumes a token whenever there
  is one.
\<close>

definition cur :: "parse_result \<Rightarrow> token list" where
  "cur r = fst (snd r)"

lemmas terminal_defs = lparen_def rparen_def expo_def mul_def quo_def add_def sub_def atom_def

lemma terminal_length:
  "length (cur (lparen ts)) \<le> length ts - 1"
  "length (cur (rparen ts)) \<le> length ts - 1"
  "length (cur (expo ts)) \<le> length ts - 1"
  "length (cur (mul ts)) \<le> length ts - 1"
  "length (cur (quo ts)) \<le> length ts - 1"
  "length (cur (add ts)) \<le> length ts - 1"
  "length (cur (sub ts)) \<le> length ts - 1"
  "length (cur (atom ts)) \<le> length ts - 1"
  by (simp_all add: terminal_defs cur_def split: list.split)

lemma parser_dom_length:
  "expr_Expr_exprp_Exprp_exprpp_exprppp_dom (Inl (Inl ts1)) \<Longrightarrow>
     length (cur (expr ts1)) \<le> length ts1"
  "expr_Expr_exprp_Exprp_exprpp_exprppp_dom (Inl (Inr (Inl ts2))) \<Longrightarrow>
     length (cur (Expr ts2)) \<le> length ts2"
  "expr_Expr_exprp_Exprp_exprpp_exprppp_dom (Inl (Inr (Inr ts3))) \<Longrightarrow>
     length (cur (exprp ts3)) \<le> length ts3"
  "expr_Expr_exprp_Exprp_exprpp_exprppp_dom (Inr (Inl ts4)) \<Longrightarrow>
     length (cur (Exprp ts4)) \<le> length ts4"
  "expr_Expr_exprp_Exprp_exprpp_exprppp_dom (Inr (Inr (Inl ts5))) \<Longrightarrow>
     length (cur (exprpp ts5)) \<le> length ts5"
  "expr_Expr_exprp_Exprp_exprpp_exprppp_dom (Inr (Inr (Inr ts6))) \<Longrightarrow>
     length (cur (exprppp ts6)) \<le> length ts6 - 1"
proof (induct rule: expr_Expr_exprp_Exprp_exprpp_exprppp.pinduct)
  case (1 ts)
  obtain c0 ts1 m1 where e1: "exprp ts = (c0, ts1, m1)" by (cases "exprp ts") auto
  obtain c1 ts2 m2 where e2: "Expr ts1 = (c1, ts2, m2)" by (cases "Expr ts1") auto
  have "length ts1 \<le> length ts" using 1(2) e1 by (simp add: cur_def)
  moreover have "length ts2 \<le> length ts1" using 1(3)[OF e1[symmetric] refl refl] e2 by (simp add: cur_def)
  ultimately show ?case using e1 e2 by (simp add: expr.psimps[OF 1(1)] cur_def)
next
  case 2
  then show ?case by (simp add: Expr.psimps cur_def)
next
  case (3 t rest)
  show ?case
  proof (cases "tok_type t = ADD \<or> tok_type t = SUB")
    case True
    define r0 where "r0 = (if tok_type t = ADD then add (t # rest) else sub (t # rest))"
    obtain c0 ts1 m1 where e0: "r0 = (c0, ts1, m1)" by (cases r0) auto
    obtain c1 ts2 m2 where e1: "exprp ts1 = (c1, ts2, m2)" by (cases "exprp ts1") auto
    obtain c2 ts3 m3 where e2: "Expr ts2 = (c2, ts3, m3)" by (cases "Expr ts2") auto
    have "length ts1 \<le> length rest"
      using terminal_length(6,7)[of "t # rest"] e0 by (simp add: r0_def cur_def split: if_splits)
    moreover have "length ts2 \<le> length ts1"
      using 3(2)[OF True r0_def e0[symmetric] refl] e1 by (simp add: cur_def)
    moreover have "length ts3 \<le> length ts2"
      using 3(3)[OF True r0_def e0[symmetric] refl e1[symmetric] refl refl] e2 by (simp add: cur_def)
    ultimately show ?thesis
      using True e0 e1 e2 by (simp add: Expr.psimps(2)[OF 3(1)] cur_def r0_def[symmetric])
  next
    case False
    then show ?thesis by (simp add: Expr.psimps(2)[OF 3(1)] cur_def)
  qed
next
  case (4 ts)
  obtain c0 ts1 m1 where e1: "exprpp ts = (c0, ts1, m1)" by (cases "exprpp ts") auto
  obtain c1 ts2 m2 where e2: "Exprp ts1 = (c1, ts2, m2)" by (cases "Exprp ts1") auto
  have "length ts1 \<le> length ts" using 4(2) e1 by (simp add: cur_def)
  moreover have "length ts2 \<le> length ts1" using 4(3)[OF e1[symmetric] refl refl] e2 by (simp add: cur_def)
  ultimately show ?case using e1 e2 by (simp add: exprp.psimps[OF 4(1)] cur_def)
next
  case 5
  then show ?case by (simp add: Exprp.psimps cur_def)
next
  case (6 t rest)
  show ?case
  proof (cases "tok_type t = MUL \<or> tok_type t = DIV")
    case True
    define r0 where "r0 = (if tok_type t = MUL then mul (t # rest) else quo (t # rest))"
    obtain c0 ts1 m1 where e0: "r0 = (c0, ts1, m1)" by (cases r0) auto
    obtain c1 ts2 m2 where e1: "exprpp ts1 = (c1, ts2, m2)" by (cases "exprpp ts1") auto
    obtain c2 ts3 m3 where e2: "Exprp ts2 = (c2, ts3, m3)" by (cases "Exprp ts2") auto
    have "length ts1 \<le> length rest"
      using terminal_length(4,5)[of "t # rest"] e0 by (simp add: r0_def cur_def split: if_splits)
    moreover have "length ts2 \<le> length ts1"
      using 6(2)[OF True r0_def e0[symmetric] refl] e1 by (simp add: cur_def)
    moreover have "length ts3 \<le> length ts2"
      using 6(3)[OF True r0_def e0[symmetric] refl e1[symmetric] refl refl] e2 by (simp add: cur_def)
    ultimately show ?thesis
      using True e0 e1 e2 by (simp add: Exprp.psimps(2)[OF 6(1)] cur_def r0_def[symmetric])
  next
    case False
    then show ?thesis by (simp add: Exprp.psimps(2)[OF 6(1)] cur_def)
  qed
next
  case 7
  then show ?case by (simp add: exprpp.psimps cur_def)
next
  case (8 t rest)
  have one: "length (cur (let (c0, ts1, m1) = exprppp (t # rest)
            in (Some (set_child (create_node NEXPRPP [] 1) 0 c0), ts1, m1))) \<le> length (t # rest)"
    if "length (cur (exprppp (t # rest))) \<le> length (t # rest) - 1"
    using that by (auto simp: cur_def split: prod.split)
  have three: "length (cur (let (c0, ts1, m1) = exprppp (t # rest);
                (c1, ts2, m2) = expo ts1;
                (c2, ts3, m3) = exprpp ts2
            in (Some (set_child (set_child (set_child (create_node NEXPRPP [] 3) 0 c0) 1 c1) 2 c2),
                ts3, m1 @ m2 @ m3))) \<le> length (t # rest)"
    if a: "length (cur (exprppp (t # rest))) \<le> length (t # rest) - 1"
    and b: "\<And>c0 ts1 m1 c1 ts2 m2. exprppp (t # rest) = (c0, ts1, m1) \<Longrightarrow> expo ts1 = (c1, ts2, m2)
           \<Longrightarrow> length (cur (exprpp ts2)) \<le> length ts2"
  proof -
    obtain c0 ts1 m1 where e0: "exprppp (t # rest) = (c0, ts1, m1)" by (cases "exprppp (t # rest)") auto
    obtain c1 ts2 m2 where e1: "expo ts1 = (c1, ts2, m2)" by (cases "expo ts1") auto
    obtain c2 ts3 m3 where e2: "exprpp ts2 = (c2, ts3, m3)" by (cases "exprpp ts2") auto
    have "length ts1 \<le> length rest" using a e0 by (simp add: cur_def)
    moreover have "length ts2 \<le> length ts1" using terminal_length(3)[of ts1] e1 by (simp add: cur_def)
    moreover have "length ts3 \<le> length ts2" using b[OF e0 e1] e2 by (simp add: cur_def)
    ultimately show ?thesis using e0 e1 e2 by (simp add: cur_def)
  qed
  show ?case
  proof (cases "tok_type t = ATOM")
    case True
    note A = True
    show ?thesis
    proof (cases "next_is_EXP (t # rest)")
      case True
      have "length (cur (exprppp (t # rest))) \<le> length (t # rest) - 1"
        using 8(2)[OF A True] .
      moreover have "\<And>c0 ts1 m1 c1 ts2 m2. exprppp (t # rest) = (c0, ts1, m1) \<Longrightarrow> expo ts1 = (c1, ts2, m2)
           \<Longrightarrow> length (cur (exprpp ts2)) \<le> length ts2"
        using 8(3)[OF A True] by simp
      ultimately show ?thesis
        using three A True by (simp add: exprpp.psimps(2)[OF 8(1)])
    next
      case False
      have "length (cur (exprppp (t # rest))) \<le> length (t # rest) - 1"
        using 8(4)[OF A False] .
      then show ?thesis using one A False by (simp add: exprpp.psimps(2)[OF 8(1)])
    qed
  next
    case False
    note A = False
    show ?thesis
    proof (cases "lookahead_loop (t # rest) = []")
      case True
      then show ?thesis using A by (simp add: exprpp.psimps(2)[OF 8(1)] cur_def Let_def)
    next
      case False
      note B = False
      show ?thesis
      proof (cases "next_is_EXP (lookahead_loop (t # rest))")
        case True
        have "length (cur (exprppp (t # rest))) \<le> length (t # rest) - 1"
          using 8(5)[OF A refl B True] .
        moreover have "\<And>c0 ts1 m1 c1 ts2 m2. exprppp (t # rest) = (c0, ts1, m1) \<Longrightarrow> expo ts1 = (c1, ts2, m2)
           \<Longrightarrow> length (cur (exprpp ts2)) \<le> length ts2"
          using 8(6)[OF A refl B True] by simp
        ultimately show ?thesis
          using three A B True by (simp add: exprpp.psimps(2)[OF 8(1)] Let_def)
      next
        case False
        have "length (cur (exprppp (t # rest))) \<le> length (t # rest) - 1"
          using 8(7)[OF A refl B False] .
        then show ?thesis using one A B False by (simp add: exprpp.psimps(2)[OF 8(1)] Let_def)
      qed
    qed
  qed
next
  case 9
  then show ?case by (simp add: exprppp.psimps cur_def)
next
  case (10 t rest)
  show ?case
  proof (cases "tok_type t = ATOM")
    case True
    then show ?thesis
      using terminal_length(8)[of "t # rest"]
      by (auto simp add: exprppp.psimps(2)[OF 10(1)] cur_def split: prod.split)
  next
    case False
    obtain c0 ts1 m1 where e0: "lparen (t # rest) = (c0, ts1, m1)" by (cases "lparen (t # rest)") auto
    obtain c1 ts2 m2 where e1: "expr ts1 = (c1, ts2, m2)" by (cases "expr ts1") auto
    obtain c2 ts3 m3 where e2: "rparen ts2 = (c2, ts3, m3)" by (cases "rparen ts2") auto
    have "length ts1 \<le> length rest"
      using terminal_length(1)[of "t # rest"] e0 by (simp add: cur_def)
    moreover have "length ts2 \<le> length ts1"
      using 10(2)[OF False e0[symmetric] refl] e1 by (simp add: cur_def)
    moreover have "length ts3 \<le> length ts2"
      using terminal_length(2)[of ts2] e2 by (simp add: cur_def)
    ultimately show ?thesis
      using False e0 e1 e2 by (simp add: exprppp.psimps(2)[OF 10(1)] cur_def)
  qed
qed


lemma terminal_cur:
  "cur (lparen ts) = tl ts" "cur (rparen ts) = tl ts" "cur (expo ts) = tl ts"
  "cur (mul ts) = tl ts" "cur (quo ts) = tl ts" "cur (add ts) = tl ts"
  "cur (sub ts) = tl ts" "cur (atom ts) = tl ts"
  by (simp_all add: terminal_defs cur_def split: list.split)

lemma cur_eq: "(c, ts', m) = r \<Longrightarrow> cur r = ts'"
  by (auto simp: cur_def)

definition parser_measure :: "(token list + token list + token list) + token list + token list + token list \<Rightarrow> nat" where
  "parser_measure x = (case x of
          Inl (Inl ts) \<Rightarrow> 6 * length ts + 5
        | Inl (Inr (Inl ts)) \<Rightarrow> 6 * length ts + 4
        | Inl (Inr (Inr ts)) \<Rightarrow> 6 * length ts + 3
        | Inr (Inl ts) \<Rightarrow> 6 * length ts + 2
        | Inr (Inr (Inl ts)) \<Rightarrow> 6 * length ts + 1
        | Inr (Inr (Inr ts)) \<Rightarrow> 6 * length ts)"

termination expr
  apply (relation "measure parser_measure")
  apply (auto simp: parser_measure_def terminal_cur dest!: cur_eq parser_dom_length)
  done

section \<open>The renderers\<close>

text \<open>
  The renderers dereference child pointers without checking them. In the model a renderer
  returns \<open>None\<close> where the C function has no defined result: it reads a child slot beyond
  the \<open>num_childs\<close> slots that were allocated, dereferences a \<open>NULL\<close> child, or reaches the end
  of the function without a \<open>return\<close>. \<open>Some s\<close> is the returned string \<open>s\<close>. \<open>concat\<close> is
  list append. The diagnostics a renderer prints on a \<open>NULL\<close> argument are not modelled.

  \<open>child_ptr n i\<close> reads the pointer \<open>n->child_ptrs[i]\<close>; \<open>child_node n i\<close> also
  dereferences it.
\<close>

definition child_ptr :: "pt_node \<Rightarrow> nat \<Rightarrow> pt_node option option" where
  "child_ptr n i = (if i < length (child_ptrs n) then Some (child_ptrs n ! i) else None)"

definition child_node :: "pt_node \<Rightarrow> nat \<Rightarrow> pt_node option" where
  "child_node n i = (case child_ptr n i of Some (Some c) \<Rightarrow> Some c | _ \<Rightarrow> None)"

lemma child_ptr_size: "child_ptr n i = Some (Some c) \<Longrightarrow> size c < size n"
proof -
  assume a: "child_ptr n i = Some (Some c)"
  obtain ty s k cs where n: "n = Node ty s k cs" by (cases n)
  from a n have "Some c \<in> set cs"
    by (auto simp: child_ptr_def split: if_splits dest: nth_mem)
  then have "size_option size (Some c) \<le> size_list (size_option size) cs"
    by (rule size_list_estimation') simp
  then show ?thesis using n by simp
qed

lemma child_node_size: "child_node n i = Some c \<Longrightarrow> size c < size n"
  by (auto simp: child_node_def split: option.splits dest: child_ptr_size)

function open_paren_loop :: "pt_node \<Rightarrow> string \<Rightarrow> string option" where
  "open_paren_loop dummy result =
     (if num_childs dummy = 3 then
        do { d \<leftarrow> child_node dummy 2; open_paren_loop d (result @ ''('') }
      else Some result)"
  by pat_completeness auto

termination open_paren_loop
  by (relation "measure (\<lambda>(dummy, result). size dummy)") (auto dest: child_node_size)

definition ptr_measure :: "pt_node option \<Rightarrow> nat" where
  "ptr_measure p = (case p of None \<Rightarrow> 0 | Some h \<Rightarrow> 2 * size h + 1)"

definition render_measure :: "pt_node option + pt_node + pt_node \<times> string \<Rightarrow> nat" where
  "render_measure x = (case x of
       Inl p \<Rightarrow> ptr_measure p
     | Inr (Inl h) \<Rightarrow> 2 * size h
     | Inr (Inr (d, r)) \<Rightarrow> 2 * size d + 1)"

lemma child_ptr_measure: "child_ptr n i = Some p \<Longrightarrow> ptr_measure p < 2 * size n"
  by (cases p; cases n) (auto simp: ptr_measure_def dest: child_ptr_size)

text \<open>
  Each renderer starts with two \<open>if\<close> blocks of the same body, one guarded by
  \<open>head->type == NEXPR && head->child_ptrs[1]->num_childs == 3\<close> and one by the same test
  for \<open>NEXPRP\<close>. \<open>has_chain\<close> is that guard (the second child is dereferenced only when
  the type matches), the \<open>_chain\<close> function of each renderer is the body, and its \<open>_loop\<close>
  function is the \<open>while (dummy->num_childs != 1)\<close> loop of the body, with the string built
  so far as second argument. \<open>open_paren_loop\<close> above is the first loop of
  \<open>pre_compl_par\<close>, which adds one \<open>(\<close> for every further continuation.
\<close>

definition has_chain :: "pt_node \<Rightarrow> bool option" where
  "has_chain head =
     (if ntype head = NEXPR \<or> ntype head = NEXPRP then
        do { c1 \<leftarrow> child_node head 1; Some (num_childs c1 = 3) }
      else Some False)"

function pre_compl_par :: "pt_node option \<Rightarrow> string option"
  and pre_compl_par_chain :: "pt_node \<Rightarrow> string option"
  and pre_compl_par_loop :: "pt_node \<Rightarrow> string \<Rightarrow> string option"
where
  "pre_compl_par None = Some []"
| "pre_compl_par (Some head) =
     do {
       chain \<leftarrow> has_chain head;
       if chain then pre_compl_par_chain head
       else if ntype head = NEXPRPP \<and> num_childs head = 3 then
         do {
           p0 \<leftarrow> child_ptr head 0; s0 \<leftarrow> pre_compl_par p0;
           p2 \<leftarrow> child_ptr head 2; s2 \<leftarrow> pre_compl_par p2;
           Some (''('' @ s0 @ ''^'' @ s2 @ '')'')
         }
       else if ntype head = NADD \<or> ntype head = NSUB \<or> ntype head = NMUL \<or>
               ntype head = NDIV \<or> ntype head = NATOM then Some (nstring head)
       else if ntype head = NEXPRPPP \<and> num_childs head = 1 then
         do { p0 \<leftarrow> child_ptr head 0; pre_compl_par p0 }
       else if ntype head = NEXPR \<or> ntype head = NEXPRP \<or> ntype head = NEXPRPP then
         do { p0 \<leftarrow> child_ptr head 0; pre_compl_par p0 }
       else if ntype head = NEXPRPPP then
         do { p1 \<leftarrow> child_ptr head 1; pre_compl_par p1 }
       else None
     }"
| "pre_compl_par_chain head =
     do {
       c1 \<leftarrow> child_node head 1;
       d \<leftarrow> child_node c1 2;
       opens \<leftarrow> open_paren_loop d ''('';
       p0 \<leftarrow> child_ptr head 0; s0 \<leftarrow> pre_compl_par p0;
       opr \<leftarrow> child_node c1 0;
       p1 \<leftarrow> child_ptr c1 1; s1 \<leftarrow> pre_compl_par p1;
       pre_compl_par_loop d (opens @ s0 @ nstring opr @ s1 @ '')'')
     }"
| "pre_compl_par_loop dummy result =
     (if num_childs dummy \<noteq> 1 then
        do {
          opr \<leftarrow> child_node dummy 0;
          p1 \<leftarrow> child_ptr dummy 1; s1 \<leftarrow> pre_compl_par p1;
          d \<leftarrow> child_node dummy 2;
          pre_compl_par_loop d (result @ nstring opr @ s1 @ '')'')
        }
      else Some result)"
  by pat_completeness auto

termination pre_compl_par
  by (relation "measure render_measure")
    (auto simp: render_measure_def ptr_measure_def
          dest!: child_ptr_measure child_node_size split: option.splits)

function postfix :: "pt_node option \<Rightarrow> string option"
  and postfix_chain :: "pt_node \<Rightarrow> string option"
  and postfix_loop :: "pt_node \<Rightarrow> string \<Rightarrow> string option"
where
  "postfix None = Some []"
| "postfix (Some head) =
     do {
       chain \<leftarrow> has_chain head;
       if chain then postfix_chain head
       else if ntype head = NEXPRPP \<and> num_childs head = 3 then
         do {
           p0 \<leftarrow> child_ptr head 0; s0 \<leftarrow> postfix p0;
           p2 \<leftarrow> child_ptr head 2; s2 \<leftarrow> postfix p2;
           Some (s0 @ s2 @ ''^ '')
         }
       else if ntype head = NATOM then Some (nstring head @ '' '')
       else if ntype head = NEXPRPPP \<and> num_childs head = 1 then
         do { p0 \<leftarrow> child_ptr head 0; postfix p0 }
       else if ntype head = NEXPR \<or> ntype head = NEXPRP \<or> ntype head = NEXPRPP then
         do { p0 \<leftarrow> child_ptr head 0; postfix p0 }
       else if ntype head = NEXPRPPP then
         do { p1 \<leftarrow> child_ptr head 1; postfix p1 }
       else None
     }"
| "postfix_chain head =
     do {
       c1 \<leftarrow> child_node head 1;
       p0 \<leftarrow> child_ptr head 0; s0 \<leftarrow> postfix p0;
       p1 \<leftarrow> child_ptr c1 1; s1 \<leftarrow> postfix p1;
       opr \<leftarrow> child_node c1 0;
       d \<leftarrow> child_node c1 2;
       postfix_loop d (s0 @ s1 @ nstring opr @ '' '')
     }"
| "postfix_loop dummy result =
     (if num_childs dummy \<noteq> 1 then
        do {
          p1 \<leftarrow> child_ptr dummy 1; s1 \<leftarrow> postfix p1;
          opr \<leftarrow> child_node dummy 0;
          d \<leftarrow> child_node dummy 2;
          postfix_loop d (result @ s1 @ nstring opr @ '' '')
        }
      else Some result)"
  by pat_completeness auto

termination postfix
  by (relation "measure render_measure")
    (auto simp: render_measure_def ptr_measure_def
          dest!: child_ptr_measure child_node_size split: option.splits)

function prefix :: "pt_node option \<Rightarrow> string option"
  and prefix_chain :: "pt_node \<Rightarrow> string option"
  and prefix_loop :: "pt_node \<Rightarrow> string \<Rightarrow> string option"
where
  "prefix None = Some []"
| "prefix (Some head) =
     do {
       chain \<leftarrow> has_chain head;
       if chain then prefix_chain head
       else if ntype head = NEXPRPP \<and> num_childs head = 3 then
         do {
           p0 \<leftarrow> child_ptr head 0; s0 \<leftarrow> prefix p0;
           p2 \<leftarrow> child_ptr head 2; s2 \<leftarrow> prefix p2;
           Some (''^ '' @ s0 @ s2)
         }
       else if ntype head = NATOM then Some (nstring head @ '' '')
       else if ntype head = NEXPRPPP \<and> num_childs head = 1 then
         do { p0 \<leftarrow> child_ptr head 0; prefix p0 }
       else if ntype head = NEXPR \<or> ntype head = NEXPRP \<or> ntype head = NEXPRPP then
         do { p0 \<leftarrow> child_ptr head 0; prefix p0 }
       else if ntype head = NEXPRPPP then
         do { p1 \<leftarrow> child_ptr head 1; prefix p1 }
       else None
     }"
| "prefix_chain head =
     do {
       c1 \<leftarrow> child_node head 1;
       opr \<leftarrow> child_node c1 0;
       p0 \<leftarrow> child_ptr head 0; s0 \<leftarrow> prefix p0;
       p1 \<leftarrow> child_ptr c1 1; s1 \<leftarrow> prefix p1;
       d \<leftarrow> child_node c1 2;
       prefix_loop d ((nstring opr @ '' '') @ s0 @ s1)
     }"
| "prefix_loop dummy result =
     (if num_childs dummy \<noteq> 1 then
        do {
          opr \<leftarrow> child_node dummy 0;
          p1 \<leftarrow> child_ptr dummy 1; s1 \<leftarrow> prefix p1;
          d \<leftarrow> child_node dummy 2;
          prefix_loop d (((nstring opr @ '' '') @ result) @ s1)
        }
      else Some result)"
  by pat_completeness auto

termination prefix
  by (relation "measure render_measure")
    (auto simp: render_measure_def ptr_measure_def
          dest!: child_ptr_measure child_node_size split: option.splits)

text \<open>
  \<open>strip_parens\<close>: when the first character is \<open>(\<close>, the last character is overwritten
  with NUL and the string from the second character on is returned; any other string is
  returned as it is. The buffer that is overwritten is the one \<open>pre_compl_par\<close> has just
  built with \<open>concat\<close>: a lexeme of the tree is returned as it is only for a leaf, and no
  lexeme that the lexer gives a leaf starts with \<open>(\<close>. So the tree is left unchanged.
\<close>

definition strip_parens :: "string \<Rightarrow> string" where
  "strip_parens pre = (case pre of
       [] \<Rightarrow> []
     | c # cs \<Rightarrow> if c = CHR ''('' then butlast cs else c # cs)"

definition compl_par :: "pt_node option \<Rightarrow> string option" where
  "compl_par head = map_option strip_parens (pre_compl_par head)"

text \<open>
  \<open>main\<close>, after the line has been read and its newline removed: the token list that
  \<open>input_lexer\<close> returns (\<open>NULL\<close>, the empty list, also when the lexer gave up) is parsed
  by \<open>expr\<close>, and the three renders of the tree are printed.
\<close>

definition lexed_input :: "string \<Rightarrow> token list" where
  "lexed_input user_input = (case input_lexer user_input of Inl e \<Rightarrow> [] | Inr ts \<Rightarrow> ts)"

definition parse_tree :: "string \<Rightarrow> pt_node option" where
  "parse_tree user_input = fst (expr (lexed_input user_input))"

definition main_output :: "string \<Rightarrow> string option \<times> string option \<times> string option" where
  "main_output user_input =
     (let head = parse_tree user_input in (compl_par head, postfix head, prefix head))"

section \<open>The lexer meets its contract\<close>

text \<open>
  Following the specification (sections 3 and 4.1): the characters \<open>tokenize\<close> accepts are
  the letters, the digits and \<open>()^*/+-\<close>; a token other than an atom is its one character;
  an atom is a non-empty run of letters or a non-empty run of digits; and the runs are
  maximal, that is, no atom is followed by an atom of the same class.
\<close>

definition lex_char :: "char \<Rightarrow> bool" where
  "lex_char c = (isalpha c \<or> isdigit c \<or> c \<in> set ''()^*/+-'')"

definition tok_ok :: "token \<Rightarrow> bool" where
  "tok_ok t = (case tok_type t of
       ATOM \<Rightarrow> tok_string t \<noteq> [] \<and>
               (list_all isalpha (tok_string t) \<or> list_all isdigit (tok_string t))
     | LPAREN \<Rightarrow> tok_string t = ''(''
     | RPAREN \<Rightarrow> tok_string t = '')''
     | EXP \<Rightarrow> tok_string t = ''^''
     | MUL \<Rightarrow> tok_string t = ''*''
     | DIV \<Rightarrow> tok_string t = ''/''
     | ADD \<Rightarrow> tok_string t = ''+''
     | SUB \<Rightarrow> tok_string t = ''-'')"

fun munch_ok :: "token list \<Rightarrow> bool" where
  "munch_ok (t1 # t2 # ts) =
     (\<not> (tok_type t1 = ATOM \<and> tok_type t2 = ATOM \<and>
         isalpha (last (tok_string t1)) = isalpha (hd (tok_string t2))) \<and>
      munch_ok (t2 # ts))"
| "munch_ok ts = True"

text \<open>The \<open>switch\<close> of \<open>input_lexer\<close>, as a table.\<close>

definition punct :: "char \<Rightarrow> token_type option" where
  "punct c =
     (if c = CHR ''('' then Some LPAREN else if c = CHR '')'' then Some RPAREN
      else if c = CHR ''^'' then Some EXP else if c = CHR ''*'' then Some MUL
      else if c = CHR ''/'' then Some DIV else if c = CHR ''+'' then Some ADD
      else if c = CHR ''-'' then Some SUB else None)"

lemma alpha_not_digit: "isalpha c \<Longrightarrow> \<not> isdigit c"
  by (auto simp: isalpha_def isdigit_def Let_def)

lemma punct_literals:
  "\<not> isalpha CHR ''(''" "\<not> isalpha CHR '')''" "\<not> isalpha CHR ''^''" "\<not> isalpha CHR ''*''"
  "\<not> isalpha CHR ''/''" "\<not> isalpha CHR ''+''" "\<not> isalpha CHR ''-''"
  "\<not> isdigit CHR ''(''" "\<not> isdigit CHR '')''" "\<not> isdigit CHR ''^''" "\<not> isdigit CHR ''*''"
  "\<not> isdigit CHR ''/''" "\<not> isdigit CHR ''+''" "\<not> isdigit CHR ''-''"
  by (simp_all add: isalpha_def isdigit_def)

lemma punct_cases:
  "punct c = Some ty \<Longrightarrow>
     (c = CHR ''('' \<and> ty = LPAREN) \<or> (c = CHR '')'' \<and> ty = RPAREN) \<or>
     (c = CHR ''^'' \<and> ty = EXP) \<or> (c = CHR ''*'' \<and> ty = MUL) \<or>
     (c = CHR ''/'' \<and> ty = DIV) \<or> (c = CHR ''+'' \<and> ty = ADD) \<or>
     (c = CHR ''-'' \<and> ty = SUB)"
  by (simp add: punct_def split: if_splits)

lemma punct_not_alnum: "punct c = Some ty \<Longrightarrow> \<not> isalpha c \<and> \<not> isdigit c"
  using punct_literals by (auto dest!: punct_cases)

lemma alpha_not_punct: "isalpha c \<Longrightarrow> punct c = None"
  using punct_not_alnum[of c] by (cases "punct c") auto

lemma digit_not_punct: "isdigit c \<Longrightarrow> punct c = None"
  using punct_not_alnum[of c] by (cases "punct c") auto

lemma lex_char_punct: "lex_char c \<longleftrightarrow> isalpha c \<or> isdigit c \<or> punct c \<noteq> None"
  by (simp add: lex_char_def punct_def)

lemma take_takeWhile: "take (length (takeWhile P xs)) xs = takeWhile P xs"
  by (rule takeWhile_eq_take[symmetric])

lemma lexer_loop_alpha:
  "isalpha c \<Longrightarrow> lexer_loop acc (c # cs) =
     lexer_loop (acc @ [\<lparr>tok_type = ATOM, tok_string = c # takeWhile isalpha cs\<rparr>])
       (dropWhile isalpha cs)"
  by (simp add: create_token_def take_takeWhile)

lemma lexer_loop_digit:
  "isdigit c \<Longrightarrow> lexer_loop acc (c # cs) =
     lexer_loop (acc @ [\<lparr>tok_type = ATOM, tok_string = c # takeWhile isdigit cs\<rparr>])
       (dropWhile isdigit cs)"
proof -
  assume d: "isdigit c"
  then have "\<not> isalpha c" using alpha_not_digit by blast
  then show ?thesis using d by (simp add: create_token_def take_takeWhile)
qed

lemma lexer_loop_punct:
  "punct c = Some ty \<Longrightarrow> lexer_loop acc (c # cs) =
     lexer_loop (acc @ [\<lparr>tok_type = ty, tok_string = [c]\<rparr>]) cs"
proof -
  assume p: "punct c = Some ty"
  have na: "\<not> isalpha c" using p alpha_not_punct[of c] by auto
  have nd: "\<not> isdigit c" using p digit_not_punct[of c] by auto
  show ?thesis using p
    by (simp add: na nd create_token_def punct_def split: if_splits)
qed

lemma lexer_loop_bad:
  "\<not> isalpha c \<Longrightarrow> \<not> isdigit c \<Longrightarrow> punct c = None \<Longrightarrow>
     lexer_loop acc (c # cs) = Inl InvalidCharacter"
  by (simp add: punct_def split: if_splits)

lemma char_cases:
  obtains (alpha) "isalpha c" | (digit) "isdigit c" | (punct) ty where "punct c = Some ty"
  | (bad) "\<not> isalpha c" "\<not> isdigit c" "punct c = None"
  by (cases "punct c") auto

text \<open>The tokens already built are only ever extended.\<close>

lemma lexer_loop_acc:
  "lexer_loop acc s = (case lexer_loop [] s of Inl e \<Rightarrow> Inl e | Inr ts \<Rightarrow> Inr (acc @ ts))"
proof (induction s arbitrary: acc rule: length_induct)
  case (1 s)
  show ?case
  proof (cases s)
    case Nil
    then show ?thesis by simp
  next
    case (Cons c cs)
    have le: "length (dropWhile P cs) < length s" for P
      using Cons length_dropWhile_le[of P cs] by simp
    have lt: "length cs < length s" using Cons by simp
    have step: "lexer_loop (acc @ [t]) r =
        (case lexer_loop [t] r of Inl e \<Rightarrow> Inl e | Inr ts \<Rightarrow> Inr (acc @ ts))"
      if "length r < length s" for t r
    proof -
      have "lexer_loop (acc @ [t]) r =
          (case lexer_loop [] r of Inl e \<Rightarrow> Inl e | Inr ts \<Rightarrow> Inr ((acc @ [t]) @ ts))"
        using 1 that by blast
      moreover have "lexer_loop [t] r =
          (case lexer_loop [] r of Inl e \<Rightarrow> Inl e | Inr ts \<Rightarrow> Inr ([t] @ ts))"
        using 1 that by blast
      ultimately show ?thesis
        by (cases "lexer_loop [] r") simp_all
    qed
    show ?thesis
    proof (cases c rule: char_cases)
      case alpha
      show ?thesis unfolding Cons lexer_loop_alpha[OF alpha] using step[OF le] by simp
    next
      case digit
      show ?thesis unfolding Cons lexer_loop_digit[OF digit] using step[OF le] by simp
    next
      case (punct ty)
      show ?thesis unfolding Cons lexer_loop_punct[OF punct] using step[OF lt] by simp
    next
      case bad
      show ?thesis unfolding Cons lexer_loop_bad[OF bad] by simp
    qed
  qed
qed


lemma lexer_loop_single:
  "lexer_loop [t] s = (case lexer_loop [] s of Inl e \<Rightarrow> Inl e | Inr ts \<Rightarrow> Inr (t # ts))"
  using lexer_loop_acc[of "[t]" s] by (cases "lexer_loop [] s") simp_all

lemma tok_ok_nonempty: "tok_ok t \<Longrightarrow> tok_string t \<noteq> []"
  by (cases "tok_type t") (auto simp: tok_ok_def)

lemma hd_concat_toks:
  "tok_ok t \<Longrightarrow> hd (concat (map tok_string (t # ts))) = hd (tok_string t)"
  by (simp add: tok_ok_nonempty)

lemma tok_ok_punct: "punct c = Some ty \<Longrightarrow> tok_ok \<lparr>tok_type = ty, tok_string = [c]\<rparr>"
  by (auto simp: tok_ok_def dest!: punct_cases)

lemma punct_not_ATOM: "punct c = Some ty \<Longrightarrow> ty \<noteq> ATOM"
  by (auto dest!: punct_cases)

lemma list_all_dropWhile: "list_all P xs \<Longrightarrow> list_all P (dropWhile Q xs)"
  by (auto simp: list_all_iff dest: set_dropWhileD)

lemma list_all_split_while:
  "list_all P (takeWhile Q xs) \<Longrightarrow> list_all P (dropWhile Q xs) \<Longrightarrow> list_all P xs"
proof -
  assume a: "list_all P (takeWhile Q xs)" and b: "list_all P (dropWhile Q xs)"
  have "list_all P (takeWhile Q xs @ dropWhile Q xs)"
    using a b by (simp only: list_all_append)
  then show ?thesis by (simp only: takeWhile_dropWhile_id)
qed

lemma list_all_takeWhile_self: "list_all P (takeWhile P xs)"
  by (auto simp: list_all_iff dest: set_takeWhileD)

text \<open>What the run of an atom leaves: nothing, or a character outside the run's class.\<close>

lemma munch_alpha:
  assumes "isalpha c" "list_all tok_ok ts"
    and "concat (map tok_string ts) = dropWhile isalpha cs" and "munch_ok ts"
  shows "munch_ok (\<lparr>tok_type = ATOM, tok_string = c # takeWhile isalpha cs\<rparr> # ts)"
proof (cases ts)
  case Nil
  then show ?thesis by simp
next
  case (Cons t2 ts')
  have ok: "tok_ok t2" using assms(2) Cons by simp
  have "dropWhile isalpha cs = tok_string t2 @ concat (map tok_string ts')"
    using assms(3) Cons by simp
  then have ne: "dropWhile isalpha cs \<noteq> []"
    using tok_ok_nonempty[OF ok] by (simp del: dropWhile_eq_Nil_conv)
  have "hd (tok_string t2) = hd (dropWhile isalpha cs)"
    using hd_concat_toks[OF ok, of ts'] assms(3) Cons by simp
  then have "\<not> isalpha (hd (tok_string t2))"
    using hd_dropWhile[OF ne] by simp
  moreover have "isalpha (last (c # takeWhile isalpha cs))"
    using assms(1) list_all_takeWhile_self[of isalpha cs]
    by (auto simp: list_all_iff dest: last_in_set)
  ultimately show ?thesis using assms(4) Cons by simp
qed

lemma munch_digit:
  assumes "isdigit c" "list_all tok_ok ts"
    and "concat (map tok_string ts) = dropWhile isdigit cs" and "munch_ok ts"
  shows "munch_ok (\<lparr>tok_type = ATOM, tok_string = c # takeWhile isdigit cs\<rparr> # ts)"
proof (cases ts)
  case Nil
  then show ?thesis by simp
next
  case (Cons t2 ts')
  have ok: "tok_ok t2" using assms(2) Cons by simp
  have "dropWhile isdigit cs = tok_string t2 @ concat (map tok_string ts')"
    using assms(3) Cons by simp
  then have ne: "dropWhile isdigit cs \<noteq> []"
    using tok_ok_nonempty[OF ok] by (simp del: dropWhile_eq_Nil_conv)
  have "hd (tok_string t2) = hd (dropWhile isdigit cs)"
    using hd_concat_toks[OF ok, of ts'] assms(3) Cons by simp
  then have nd: "\<not> isdigit (hd (tok_string t2))"
    using hd_dropWhile[OF ne] by simp
  have "isalpha (hd (tok_string t2))" if "tok_type t2 = ATOM"
  proof -
    have "tok_string t2 \<noteq> []" using tok_ok_nonempty[OF ok] .
    then have "hd (tok_string t2) \<in> set (tok_string t2)" by simp
    then show ?thesis using ok that nd by (auto simp: tok_ok_def list_all_iff)
  qed
  moreover have "isdigit (last (c # takeWhile isdigit cs))"
    using assms(1) list_all_takeWhile_self[of isdigit cs]
    by (auto simp: list_all_iff dest: last_in_set)
  then have "\<not> isalpha (last (c # takeWhile isdigit cs))"
    using alpha_not_digit by blast
  ultimately show ?thesis using assms(4) Cons by auto
qed

lemma lexer_loop_spec:
  "(case lexer_loop [] s of
      Inl e \<Rightarrow> \<not> list_all lex_char s
    | Inr ts \<Rightarrow> list_all lex_char s \<and> concat (map tok_string ts) = s \<and>
                list_all tok_ok ts \<and> munch_ok ts)"
proof (induction s rule: length_induct)
  case (1 s)
  show ?case
  proof (cases s)
    case Nil
    then show ?thesis by simp
  next
    case (Cons c cs)
    have IH: "(case lexer_loop [] r of
        Inl e \<Rightarrow> \<not> list_all lex_char r
      | Inr ts \<Rightarrow> list_all lex_char r \<and> concat (map tok_string ts) = r \<and>
                  list_all tok_ok ts \<and> munch_ok ts)" if "length r < length s" for r
      using 1 that by blast
    have le: "length (dropWhile P cs) < length s" for P
      using Cons length_dropWhile_le[of P cs] by simp
    have lt: "length cs < length s" using Cons by simp
    show ?thesis
    proof (cases c rule: char_cases)
      case alpha
      let ?t = "\<lparr>tok_type = ATOM, tok_string = c # takeWhile isalpha cs\<rparr>"
      have eq: "lexer_loop [] s =
          (case lexer_loop [] (dropWhile isalpha cs) of Inl e \<Rightarrow> Inl e | Inr ts \<Rightarrow> Inr (?t # ts))"
        unfolding Cons lexer_loop_alpha[OF alpha] by (simp add: lexer_loop_single)
      have run: "list_all lex_char (takeWhile isalpha cs)"
        using list_all_takeWhile_self[of isalpha cs] by (auto simp: list_all_iff lex_char_def)
      have t_ok: "tok_ok ?t"
        using alpha list_all_takeWhile_self[of isalpha cs] by (simp add: tok_ok_def)
      show ?thesis
      proof (cases "lexer_loop [] (dropWhile isalpha cs)")
        case (Inl e)
        then have "\<not> list_all lex_char (dropWhile isalpha cs)" using IH[OF le, of isalpha] by simp
        then have "\<not> list_all lex_char cs" using list_all_dropWhile by blast
        then show ?thesis using eq Inl Cons by simp
      next
        case (Inr ts)
        then have r: "list_all lex_char (dropWhile isalpha cs)"
            "concat (map tok_string ts) = dropWhile isalpha cs"
            "list_all tok_ok ts" "munch_ok ts"
          using IH[OF le, of isalpha] by simp_all
        have "list_all lex_char cs" using list_all_split_while[OF run r(1)] .
        moreover have "lex_char c" using alpha by (simp add: lex_char_def)
        moreover have "munch_ok (?t # ts)" using munch_alpha[OF alpha r(3) r(2) r(4)] .
        ultimately show ?thesis using eq Inr Cons r t_ok by simp
      qed
    next
      case digit
      let ?t = "\<lparr>tok_type = ATOM, tok_string = c # takeWhile isdigit cs\<rparr>"
      have eq: "lexer_loop [] s =
          (case lexer_loop [] (dropWhile isdigit cs) of Inl e \<Rightarrow> Inl e | Inr ts \<Rightarrow> Inr (?t # ts))"
        unfolding Cons lexer_loop_digit[OF digit] by (simp add: lexer_loop_single)
      have run: "list_all lex_char (takeWhile isdigit cs)"
        using list_all_takeWhile_self[of isdigit cs] by (auto simp: list_all_iff lex_char_def)
      have t_ok: "tok_ok ?t"
        using digit list_all_takeWhile_self[of isdigit cs] by (simp add: tok_ok_def)
      show ?thesis
      proof (cases "lexer_loop [] (dropWhile isdigit cs)")
        case (Inl e)
        then have "\<not> list_all lex_char (dropWhile isdigit cs)" using IH[OF le, of isdigit] by simp
        then have "\<not> list_all lex_char cs" using list_all_dropWhile by blast
        then show ?thesis using eq Inl Cons by simp
      next
        case (Inr ts)
        then have r: "list_all lex_char (dropWhile isdigit cs)"
            "concat (map tok_string ts) = dropWhile isdigit cs"
            "list_all tok_ok ts" "munch_ok ts"
          using IH[OF le, of isdigit] by simp_all
        have "list_all lex_char cs" using list_all_split_while[OF run r(1)] .
        moreover have "lex_char c" using digit by (simp add: lex_char_def)
        moreover have "munch_ok (?t # ts)" using munch_digit[OF digit r(3) r(2) r(4)] .
        ultimately show ?thesis using eq Inr Cons r t_ok by simp
      qed
    next
      case (punct ty)
      let ?t = "\<lparr>tok_type = ty, tok_string = [c]\<rparr>"
      have eq: "lexer_loop [] s =
          (case lexer_loop [] cs of Inl e \<Rightarrow> Inl e | Inr ts \<Rightarrow> Inr (?t # ts))"
        unfolding Cons lexer_loop_punct[OF punct] by (simp add: lexer_loop_single)
      have lc: "lex_char c" using punct by (simp add: lex_char_punct)
      show ?thesis
      proof (cases "lexer_loop [] cs")
        case (Inl e)
        then have "\<not> list_all lex_char cs" using IH[OF lt] by simp
        then show ?thesis using eq Inl Cons by simp
      next
        case (Inr ts)
        then have r: "list_all lex_char cs" "concat (map tok_string ts) = cs"
            "list_all tok_ok ts" "munch_ok ts"
          using IH[OF lt] by simp_all
        have "munch_ok (?t # ts)" using r(4) punct_not_ATOM[OF punct] by (cases ts) simp_all
        then show ?thesis using eq Inr Cons r lc tok_ok_punct[OF punct] by simp
      qed
    next
      case bad
      have "\<not> lex_char c" using bad by (simp add: lex_char_punct)
      then show ?thesis unfolding Cons lexer_loop_bad[OF bad] by simp
    qed
  qed
qed

lemma input_lexer_loop: "input_lexer s = lexer_loop [] s"
  by (simp add: input_lexer_def)

text \<open>
  C9: \<open>input_lexer\<close> returns a token list exactly when every character of the input is a
  letter, a digit or one of \<open>()^*/+-\<close>, and gives up with \<open>InvalidCharacter\<close> otherwise.
  The lexemes of the tokens, in order, make up the input; every atom is a non-empty run
  of letters only or of digits only; and no atom is followed by an atom of the same
  class, so every run is maximal. So \<open>a$b\<close> and \<open>a b\<close> are refused, the empty input gives
  the empty token list, and \<open>ab12+c\<close> gives the atoms \<open>ab\<close> and \<open>12\<close>, a \<open>+\<close> and the
  atom \<open>c\<close>.
\<close>

theorem input_lexer_spec:
  "((\<exists>ts. input_lexer s = Inr ts) \<longleftrightarrow> list_all lex_char s) \<and>
   (input_lexer s = Inl InvalidCharacter \<longleftrightarrow> \<not> list_all lex_char s) \<and>
   (case input_lexer s of
      Inl e \<Rightarrow> True
    | Inr ts \<Rightarrow> concat (map tok_string ts) = s \<and> list_all tok_ok ts \<and> munch_ok ts) \<and>
   input_lexer ''a$b'' = Inl InvalidCharacter \<and>
   input_lexer ''a b'' = Inl InvalidCharacter \<and>
   input_lexer '''' = Inr [] \<and>
   input_lexer ''ab12+c'' =
     Inr [\<lparr>tok_type = ATOM, tok_string = ''ab''\<rparr>, \<lparr>tok_type = ATOM, tok_string = ''12''\<rparr>,
          \<lparr>tok_type = ADD, tok_string = ''+''\<rparr>, \<lparr>tok_type = ATOM, tok_string = ''c''\<rparr>]"
proof -
  have general:
    "((\<exists>ts. input_lexer s = Inr ts) \<longleftrightarrow> list_all lex_char s) \<and>
     (input_lexer s = Inl InvalidCharacter \<longleftrightarrow> \<not> list_all lex_char s) \<and>
     (case input_lexer s of
        Inl e \<Rightarrow> True
      | Inr ts \<Rightarrow> concat (map tok_string ts) = s \<and> list_all tok_ok ts \<and> munch_ok ts)"
  proof (cases "input_lexer s")
    case (Inl e)
    then show ?thesis using lexer_loop_spec[of s] by (cases e) (simp add: input_lexer_loop)
  next
    case (Inr ts)
    then show ?thesis using lexer_loop_spec[of s] by (simp add: input_lexer_loop)
  qed
  have 1: "input_lexer ''a$b'' = Inl InvalidCharacter" by code_simp
  have 2: "input_lexer ''a b'' = Inl InvalidCharacter" by code_simp
  have 3: "input_lexer '''' = Inr []" by code_simp
  have 4: "input_lexer ''ab12+c'' =
     Inr [\<lparr>tok_type = ATOM, tok_string = ''ab''\<rparr>, \<lparr>tok_type = ATOM, tok_string = ''12''\<rparr>,
          \<lparr>tok_type = ADD, tok_string = ''+''\<rparr>, \<lparr>tok_type = ATOM, tok_string = ''c''\<rparr>]"
    by code_simp
  show ?thesis using general 1 2 3 4 by blast
qed

section \<open>What the parser returns\<close>

subsection \<open>Trees without \<open>NULL\<close> and the grammar\<close>

text \<open>\<open>null_free n\<close>: no child pointer anywhere in the tree \<open>n\<close> is \<open>NULL\<close>.\<close>

fun null_free :: "pt_node \<Rightarrow> bool" where
  "null_free (Node ty s n cs) =
     list_all (\<lambda>c. case c of None \<Rightarrow> False | Some k \<Rightarrow> null_free k) cs"

text \<open>
  The grammar of the source's comment (and of section 4.2 of the specification), one rule
  per production. \<open>g_expr ts r\<close>: some prefix of \<open>ts\<close> is derived from \<open>expr\<close>, and \<open>r\<close> is
  what follows it; so \<open>g_expr ts []\<close> says that \<open>ts\<close> is a complete expression.
\<close>

inductive g_expr :: "token list \<Rightarrow> token list \<Rightarrow> bool"
  and g_Expr :: "token list \<Rightarrow> token list \<Rightarrow> bool"
  and g_exprp :: "token list \<Rightarrow> token list \<Rightarrow> bool"
  and g_Exprp :: "token list \<Rightarrow> token list \<Rightarrow> bool"
  and g_exprpp :: "token list \<Rightarrow> token list \<Rightarrow> bool"
  and g_exprppp :: "token list \<Rightarrow> token list \<Rightarrow> bool"
where
  expr: "g_exprp ts r1 \<Longrightarrow> g_Expr r1 r2 \<Longrightarrow> g_expr ts r2"
| Expr_add: "tok_type t = ADD \<Longrightarrow> g_exprp ts r1 \<Longrightarrow> g_Expr r1 r2 \<Longrightarrow> g_Expr (t # ts) r2"
| Expr_sub: "tok_type t = SUB \<Longrightarrow> g_exprp ts r1 \<Longrightarrow> g_Expr r1 r2 \<Longrightarrow> g_Expr (t # ts) r2"
| Expr_eps: "g_Expr ts ts"
| exprp: "g_exprpp ts r1 \<Longrightarrow> g_Exprp r1 r2 \<Longrightarrow> g_exprp ts r2"
| Exprp_mul: "tok_type t = MUL \<Longrightarrow> g_exprpp ts r1 \<Longrightarrow> g_Exprp r1 r2 \<Longrightarrow> g_Exprp (t # ts) r2"
| Exprp_div: "tok_type t = DIV \<Longrightarrow> g_exprpp ts r1 \<Longrightarrow> g_Exprp r1 r2 \<Longrightarrow> g_Exprp (t # ts) r2"
| Exprp_eps: "g_Exprp ts ts"
| exprpp_exp: "g_exprppp ts (t # r1) \<Longrightarrow> tok_type t = EXP \<Longrightarrow> g_exprpp r1 r2 \<Longrightarrow> g_exprpp ts r2"
| exprpp_one: "g_exprppp ts r \<Longrightarrow> g_exprpp ts r"
| exprppp_atom: "tok_type t = ATOM \<Longrightarrow> g_exprppp (t # ts) ts"
| exprppp_paren: "tok_type t1 = LPAREN \<Longrightarrow> g_expr ts (t2 # r) \<Longrightarrow> tok_type t2 = RPAREN \<Longrightarrow>
     g_exprppp (t1 # ts) r"

code_pred (modes: i \<Rightarrow> o \<Rightarrow> bool, i \<Rightarrow> i \<Rightarrow> bool) g_expr .

text \<open>The nodes the parse functions build.\<close>

lemma node1:
  "set_child (create_node ty s 1) 0 a = Node ty s 1 [a]"
  "set_child (create_node ty s (Suc 0)) 0 a = Node ty s 1 [a]"
  by (simp_all add: create_node_def)

lemma node2:
  "set_child (set_child (create_node ty s 2) 0 a) 1 b = Node ty s 2 [a, b]"
  "set_child (set_child (create_node ty s 2) 0 a) (Suc 0) b = Node ty s 2 [a, b]"
  by (simp_all add: create_node_def numeral_2_eq_2)

lemma node3:
  "set_child (set_child (set_child (create_node ty s 3) 0 a) 1 b) 2 c = Node ty s 3 [a, b, c]"
  "set_child (set_child (set_child (create_node ty s 3) 0 a) (Suc 0) b) 2 c = Node ty s 3 [a, b, c]"
  by (simp_all add: create_node_def numeral_3_eq_3)

lemma terminal_Some:
  "lparen ts = (Some n, r, m) \<Longrightarrow> \<exists>t. ts = t # r \<and> tok_type t = LPAREN"
  "rparen ts = (Some n, r, m) \<Longrightarrow> \<exists>t. ts = t # r \<and> tok_type t = RPAREN"
  "expo ts = (Some n, r, m) \<Longrightarrow> \<exists>t. ts = t # r \<and> tok_type t = EXP"
  "mul ts = (Some n, r, m) \<Longrightarrow> \<exists>t. ts = t # r \<and> tok_type t = MUL"
  "quo ts = (Some n, r, m) \<Longrightarrow> \<exists>t. ts = t # r \<and> tok_type t = DIV"
  "add ts = (Some n, r, m) \<Longrightarrow> \<exists>t. ts = t # r \<and> tok_type t = ADD"
  "sub ts = (Some n, r, m) \<Longrightarrow> \<exists>t. ts = t # r \<and> tok_type t = SUB"
  "atom ts = (Some n, r, m) \<Longrightarrow> \<exists>t. ts = t # r \<and> tok_type t = ATOM"
  by (auto simp: terminal_defs split: list.splits if_splits)

text \<open>
  A parse function that returns a tree without \<open>NULL\<close> has consumed a phrase of its
  nonterminal and has printed nothing.
\<close>

lemma terminal_quiet:
  "lparen ts = (Some n, r, m) \<Longrightarrow> m = []"
  "rparen ts = (Some n, r, m) \<Longrightarrow> m = []"
  "expo ts = (Some n, r, m) \<Longrightarrow> m = []"
  "mul ts = (Some n, r, m) \<Longrightarrow> m = []"
  "quo ts = (Some n, r, m) \<Longrightarrow> m = []"
  "add ts = (Some n, r, m) \<Longrightarrow> m = []"
  "sub ts = (Some n, r, m) \<Longrightarrow> m = []"
  "atom ts = (Some n, r, m) \<Longrightarrow> m = []"
  by (auto simp: terminal_defs split: list.splits if_splits)

lemma parser_sound:
  "\<forall>n r m. expr ts1 = (Some n, r, m) \<longrightarrow> null_free n \<longrightarrow> g_expr ts1 r \<and> m = []"
  "\<forall>n r m. Expr ts2 = (Some n, r, m) \<longrightarrow> null_free n \<longrightarrow> g_Expr ts2 r \<and> m = []"
  "\<forall>n r m. exprp ts3 = (Some n, r, m) \<longrightarrow> null_free n \<longrightarrow> g_exprp ts3 r \<and> m = []"
  "\<forall>n r m. Exprp ts4 = (Some n, r, m) \<longrightarrow> null_free n \<longrightarrow> g_Exprp ts4 r \<and> m = []"
  "\<forall>n r m. exprpp ts5 = (Some n, r, m) \<longrightarrow> null_free n \<longrightarrow> g_exprpp ts5 r \<and> m = []"
  "\<forall>n r m. exprppp ts6 = (Some n, r, m) \<longrightarrow> null_free n \<longrightarrow> g_exprppp ts6 r \<and> m = []"
proof (induct rule: expr_Expr_exprp_Exprp_exprpp_exprppp.induct)
  case (1 ts)
  show ?case
  proof (intro allI impI)
    fix n r m assume e: "expr ts = (Some n, r, m)" and nf: "null_free n"
    obtain c0 ts1 m1 where e1: "exprp ts = (c0, ts1, m1)" by (cases "exprp ts") auto
    obtain c1 ts2 m2 where e2: "Expr ts1 = (c1, ts2, m2)" by (cases "Expr ts1") auto
    from e e1 e2 have n: "n = Node NEXPR [] 2 [c0, c1]" and r: "r = ts2" and m: "m = m1 @ m2"
      by (auto simp add: expr.simps[of ts] node2 simp del: exprp.simps)
    from nf n obtain n0 n1 where c: "c0 = Some n0" "null_free n0" "c1 = Some n1" "null_free n1"
      by (auto split: option.splits)
    have "g_exprp ts ts1 \<and> m1 = []" using 1(1) e1 c by simp
    moreover have "g_Expr ts1 ts2 \<and> m2 = []" using 1(2)[OF e1[symmetric] refl] e2 c by simp
    ultimately show "g_expr ts r \<and> m = []" using r m by (auto intro: expr)
  qed
next
  case 2
  show ?case by (auto intro: Expr_eps)
next
  case (3 t rest)
  show ?case
  proof (intro allI impI)
    fix n r m assume e: "Expr (t # rest) = (Some n, r, m)" and nf: "null_free n"
    show "g_Expr (t # rest) r \<and> m = []"
    proof (cases "tok_type t = ADD \<or> tok_type t = SUB")
      case True
      define r0 where "r0 = (if tok_type t = ADD then add (t # rest) else sub (t # rest))"
      obtain c0 ts1 m1 where e0: "r0 = (c0, ts1, m1)" by (cases r0) auto
      obtain c1 ts2 m2 where e1: "exprp ts1 = (c1, ts2, m2)" by (cases "exprp ts1") auto
      obtain c2 ts3 m3 where e2: "Expr ts2 = (c2, ts3, m3)" by (cases "Expr ts2") auto
      from e True e0 e1 e2 have n: "n = Node NeXPR [] 3 [c0, c1, c2]" and r: "r = ts3"
          and m: "m = m1 @ m2 @ m3"
        by (auto simp add: node3 r0_def[symmetric] simp del: exprp.simps)
      from nf n obtain n0 n1 n2 where c: "c0 = Some n0" "c1 = Some n1" "null_free n1"
          "c2 = Some n2" "null_free n2"
        by (auto split: option.splits)
      have ts1: "ts1 = rest" using e0 terminal_cur(6,7)[of "t # rest"]
        by (auto simp: r0_def cur_def split: if_splits)
      have m1: "m1 = []" using e0 c terminal_quiet(6,7)[of "t # rest" n0 ts1 m1]
        by (auto simp: r0_def split: if_splits)
      have "g_exprp ts1 ts2 \<and> m2 = []"
        using 3(1)[OF True r0_def e0[symmetric] refl] e1 c by simp
      moreover have "g_Expr ts2 ts3 \<and> m3 = []"
        using 3(2)[OF True r0_def e0[symmetric] refl e1[symmetric] refl refl] e2 c by simp
      ultimately show ?thesis using True r ts1 m m1 by (auto intro: Expr_add Expr_sub)
    next
      case False
      then show ?thesis using e by (auto intro: Expr_eps)
    qed
  qed
next
  case (4 ts)
  show ?case
  proof (intro allI impI)
    fix n r m assume e: "exprp ts = (Some n, r, m)" and nf: "null_free n"
    obtain c0 ts1 m1 where e1: "exprpp ts = (c0, ts1, m1)" by (cases "exprpp ts") auto
    obtain c1 ts2 m2 where e2: "Exprp ts1 = (c1, ts2, m2)" by (cases "Exprp ts1") auto
    from e e1 e2 have n: "n = Node NEXPRP [] 2 [c0, c1]" and r: "r = ts2" and m: "m = m1 @ m2"
      by (auto simp add: exprp.simps[of ts] node2)
    from nf n obtain n0 n1 where c: "c0 = Some n0" "null_free n0" "c1 = Some n1" "null_free n1"
      by (auto split: option.splits)
    have "g_exprpp ts ts1 \<and> m1 = []" using 4(1) e1 c by simp
    moreover have "g_Exprp ts1 ts2 \<and> m2 = []" using 4(2)[OF e1[symmetric] refl] e2 c by simp
    ultimately show "g_exprp ts r \<and> m = []" using r m by (auto intro: exprp)
  qed
next
  case 5
  show ?case by (auto intro: Exprp_eps)
next
  case (6 t rest)
  show ?case
  proof (intro allI impI)
    fix n r m assume e: "Exprp (t # rest) = (Some n, r, m)" and nf: "null_free n"
    show "g_Exprp (t # rest) r \<and> m = []"
    proof (cases "tok_type t = MUL \<or> tok_type t = DIV")
      case True
      define r0 where "r0 = (if tok_type t = MUL then mul (t # rest) else quo (t # rest))"
      obtain c0 ts1 m1 where e0: "r0 = (c0, ts1, m1)" by (cases r0) auto
      obtain c1 ts2 m2 where e1: "exprpp ts1 = (c1, ts2, m2)" by (cases "exprpp ts1") auto
      obtain c2 ts3 m3 where e2: "Exprp ts2 = (c2, ts3, m3)" by (cases "Exprp ts2") auto
      from e True e0 e1 e2 have n: "n = Node NeXPRP [] 3 [c0, c1, c2]" and r: "r = ts3"
          and m: "m = m1 @ m2 @ m3"
        by (auto simp add: node3 r0_def[symmetric])
      from nf n obtain n0 n1 n2 where c: "c0 = Some n0" "c1 = Some n1" "null_free n1"
          "c2 = Some n2" "null_free n2"
        by (auto split: option.splits)
      have ts1: "ts1 = rest" using e0 terminal_cur(4,5)[of "t # rest"]
        by (auto simp: r0_def cur_def split: if_splits)
      have m1: "m1 = []" using e0 c terminal_quiet(4,5)[of "t # rest" n0 ts1 m1]
        by (auto simp: r0_def split: if_splits)
      have "g_exprpp ts1 ts2 \<and> m2 = []"
        using 6(1)[OF True r0_def e0[symmetric] refl] e1 c by simp
      moreover have "g_Exprp ts2 ts3 \<and> m3 = []"
        using 6(2)[OF True r0_def e0[symmetric] refl e1[symmetric] refl refl] e2 c by simp
      ultimately show ?thesis using True r ts1 m m1 by (auto intro: Exprp_mul Exprp_div)
    next
      case False
      then show ?thesis using e by (auto intro: Exprp_eps)
    qed
  qed
next
  case 7
  show ?case by simp
next
  case (8 t rest)
  have one: "g_exprpp (t # rest) r \<and> m = []"
    if e: "(let (c0, ts1, m1) = exprppp (t # rest)
            in (Some (set_child (create_node NEXPRPP [] 1) 0 c0), ts1, m1)) = (Some n, r, m)"
    and nf: "null_free n"
    and a: "\<forall>n r m. exprppp (t # rest) = (Some n, r, m) \<longrightarrow> null_free n \<longrightarrow>
              g_exprppp (t # rest) r \<and> m = []"
    for n r m
  proof -
    obtain c0 ts1 m1 where e0: "exprppp (t # rest) = (c0, ts1, m1)"
      by (cases "exprppp (t # rest)") auto
    from e e0 have n: "n = Node NEXPRPP [] 1 [c0]" and r: "r = ts1" and m: "m = m1"
      by (auto simp add: node1 simp del: exprppp.simps)
    from nf n obtain n0 where c: "c0 = Some n0" "null_free n0"
      by (auto split: option.splits)
    have "g_exprppp (t # rest) ts1 \<and> m1 = []" using a e0 c by simp
    then show ?thesis using r m by (auto intro: exprpp_one)
  qed
  have three: "g_exprpp (t # rest) r \<and> m = []"
    if e: "(let (c0, ts1, m1) = exprppp (t # rest);
                (c1, ts2, m2) = expo ts1;
                (c2, ts3, m3) = exprpp ts2
            in (Some (set_child (set_child (set_child (create_node NEXPRPP [] 3) 0 c0) 1 c1) 2 c2),
                ts3, m1 @ m2 @ m3)) = (Some n, r, m)"
    and nf: "null_free n"
    and a: "\<forall>n r m. exprppp (t # rest) = (Some n, r, m) \<longrightarrow> null_free n \<longrightarrow>
              g_exprppp (t # rest) r \<and> m = []"
    and b: "\<And>c0 ts1 m1 c1 ts2 m2.
              exprppp (t # rest) = (c0, ts1, m1) \<Longrightarrow> expo ts1 = (c1, ts2, m2) \<Longrightarrow>
              \<forall>n r m. exprpp ts2 = (Some n, r, m) \<longrightarrow> null_free n \<longrightarrow>
                g_exprpp ts2 r \<and> m = []"
    for n r m
  proof -
    obtain c0 ts1 m1 where e0: "exprppp (t # rest) = (c0, ts1, m1)"
      by (cases "exprppp (t # rest)") auto
    obtain c1 ts2 m2 where e1: "expo ts1 = (c1, ts2, m2)" by (cases "expo ts1") auto
    obtain c2 ts3 m3 where e2: "exprpp ts2 = (c2, ts3, m3)" by (cases "exprpp ts2") auto
    from e e0 e1 e2 have n: "n = Node NEXPRPP [] 3 [c0, c1, c2]" and r: "r = ts3"
        and m: "m = m1 @ m2 @ m3"
      by (auto simp add: node3 simp del: exprppp.simps exprpp.simps)
    from nf n obtain n0 n1 n2 where c: "c0 = Some n0" "null_free n0" "c1 = Some n1"
        "c2 = Some n2" "null_free n2"
      by (auto split: option.splits)
    obtain tx where tx: "ts1 = tx # ts2" "tok_type tx = EXP"
      using terminal_Some(3)[of ts1 n1 ts2 m2] e1 c by auto
    have m2: "m2 = []" using terminal_quiet(3)[of ts1 n1 ts2 m2] e1 c by simp
    have "g_exprppp (t # rest) (tx # ts2) \<and> m1 = []" using a e0 c tx by simp
    moreover have "g_exprpp ts2 ts3 \<and> m3 = []" using b[OF e0 e1] e2 c by simp
    ultimately show ?thesis using r tx m m2 by (auto intro: exprpp_exp)
  qed
  show ?case
  proof (intro allI impI)
    fix n r m assume e: "exprpp (t # rest) = (Some n, r, m)" and nf: "null_free n"
    show "g_exprpp (t # rest) r \<and> m = []"
    proof (cases "tok_type t = ATOM")
      case True
      note A = True
      show ?thesis
      proof (cases "next_is_EXP (t # rest)")
        case True
        have b: "\<And>c0 ts1 m1 c1 ts2 m2.
              exprppp (t # rest) = (c0, ts1, m1) \<Longrightarrow> expo ts1 = (c1, ts2, m2) \<Longrightarrow>
              \<forall>n r m. exprpp ts2 = (Some n, r, m) \<longrightarrow> null_free n \<longrightarrow>
                g_exprpp ts2 r \<and> m = []"
          using 8(2)[OF A True] by simp
        show ?thesis
          by (rule three[OF _ nf 8(1)[OF A True] b])
             (use e A True in \<open>simp_all del: exprppp.simps exprpp.simps add: exprpp.simps(2)[of t rest]\<close>)
      next
        case False
        show ?thesis
          by (rule one[OF _ nf 8(3)[OF A False]])
             (use e A False in \<open>simp del: exprppp.simps exprpp.simps add: exprpp.simps(2)[of t rest]\<close>)
      qed
    next
      case False
      note A = False
      have B: "lookahead_loop (t # rest) \<noteq> []"
        using e A by (auto simp: Let_def simp del: exprppp.simps lookahead_loop.simps)
      show ?thesis
      proof (cases "next_is_EXP (lookahead_loop (t # rest))")
        case True
        have b: "\<And>c0 ts1 m1 c1 ts2 m2.
              exprppp (t # rest) = (c0, ts1, m1) \<Longrightarrow> expo ts1 = (c1, ts2, m2) \<Longrightarrow>
              \<forall>n r m. exprpp ts2 = (Some n, r, m) \<longrightarrow> null_free n \<longrightarrow>
                g_exprpp ts2 r \<and> m = []"
          using 8(5)[OF A refl B True] by simp
        show ?thesis
          by (rule three[OF _ nf 8(4)[OF A refl B True] b])
             (use e A B True in \<open>simp_all del: exprppp.simps exprpp.simps lookahead_loop.simps
                 add: exprpp.simps(2)[of t rest] Let_def\<close>)
      next
        case False
        show ?thesis
          by (rule one[OF _ nf 8(6)[OF A refl B False]])
             (use e A B False in \<open>simp del: exprppp.simps exprpp.simps lookahead_loop.simps
                 add: exprpp.simps(2)[of t rest] Let_def\<close>)
      qed
    qed
  qed
next
  case 9
  show ?case by simp
next
  case (10 t rest)
  show ?case
  proof (intro allI impI)
    fix n r m assume e: "exprppp (t # rest) = (Some n, r, m)" and nf: "null_free n"
    show "g_exprppp (t # rest) r \<and> m = []"
    proof (cases "tok_type t = ATOM")
      case True
      obtain c0 ts1 m1 where e0: "atom (t # rest) = (c0, ts1, m1)"
        by (cases "atom (t # rest)") auto
      from e True e0 have n: "n = Node NEXPRPPP [] 1 [c0]" and r: "r = ts1" and m: "m = m1"
        by (auto simp add: node1)
      from nf n obtain n0 where c: "c0 = Some n0" by (auto split: option.splits)
      have "ts1 = rest" using terminal_Some(8)[of "t # rest" n0 ts1 m1] e0 c by auto
      moreover have "m1 = []" using terminal_quiet(8)[of "t # rest" n0 ts1 m1] e0 c by simp
      ultimately show ?thesis using True r m by (auto intro: exprppp_atom)
    next
      case False
      obtain c0 ts1 m1 where e0: "lparen (t # rest) = (c0, ts1, m1)"
        by (cases "lparen (t # rest)") auto
      obtain c1 ts2 m2 where e1: "expr ts1 = (c1, ts2, m2)" by (cases "expr ts1") auto
      obtain c2 ts3 m3 where e2: "rparen ts2 = (c2, ts3, m3)" by (cases "rparen ts2") auto
      from e False e0 e1 e2 have n: "n = Node NEXPRPPP [] 3 [c0, c1, c2]" and r: "r = ts3"
          and m: "m = m1 @ m2 @ m3"
        by (auto simp add: node3 simp del: expr.simps)
      from nf n obtain n0 n1 n2 where c: "c0 = Some n0" "c1 = Some n1" "null_free n1"
          "c2 = Some n2"
        by (auto split: option.splits)
      have l: "ts1 = rest" "tok_type t = LPAREN"
        using terminal_Some(1)[of "t # rest" n0 ts1 m1] e0 c by auto
      obtain tx where tx: "ts2 = tx # ts3" "tok_type tx = RPAREN"
        using terminal_Some(2)[of ts2 n2 ts3 m3] e2 c by auto
      have q: "m1 = []" "m3 = []"
        using terminal_quiet(1)[of "t # rest" n0 ts1 m1] terminal_quiet(2)[of ts2 n2 ts3 m3] e0 e2 c
        by simp_all
      have "g_expr ts1 ts2 \<and> m2 = []" using 10(1)[OF False e0[symmetric] refl] e1 c by simp
      then show ?thesis using l tx r m q by (auto intro: exprppp_paren)
    qed
  qed
qed

subsection \<open>A failed parse shows as a \<open>NULL\<close> child or as unconsumed tokens\<close>

text \<open>What a derivation consumes ends with an atom or a closing parenthesis.\<close>

definition ends_operand :: "token list \<Rightarrow> token list \<Rightarrow> bool" where
  "ends_operand ts r =
     (\<exists>pre. ts = pre @ r \<and> pre \<noteq> [] \<and> (tok_type (last pre) = ATOM \<or> tok_type (last pre) = RPAREN))"

lemma ends_operand_trans:
  assumes "ends_operand ts r1" and "ends_operand r1 r2 \<or> r1 = r2"
  shows "ends_operand ts r2"
proof (cases "r1 = r2")
  case True
  then show ?thesis using assms(1) by simp
next
  case False
  then have "ends_operand r1 r2" using assms(2) by simp
  then obtain q where q: "r1 = q @ r2" "q \<noteq> []"
      "tok_type (last q) = ATOM \<or> tok_type (last q) = RPAREN"
    unfolding ends_operand_def by blast
  obtain p where p: "ts = p @ r1" using assms(1) unfolding ends_operand_def by blast
  show ?thesis unfolding ends_operand_def
    using p q by (intro exI[of _ "p @ q"]) simp
qed

lemma ends_operand_Cons: "ends_operand ts r \<Longrightarrow> ends_operand (t # ts) r"
proof -
  assume "ends_operand ts r"
  then obtain p where p: "ts = p @ r" "p \<noteq> []"
      "tok_type (last p) = ATOM \<or> tok_type (last p) = RPAREN"
    unfolding ends_operand_def by blast
  show ?thesis unfolding ends_operand_def
    using p by (intro exI[of _ "t # p"]) simp
qed

lemma ends_operand_single:
  "tok_type t = ATOM \<or> tok_type t = RPAREN \<Longrightarrow> ends_operand (t # ts) ts"
  unfolding ends_operand_def by (rule exI[of _ "[t]"]) simp

lemma grammar_ends_operand:
  "g_expr ts1 r1 \<Longrightarrow> ends_operand ts1 r1"
  "g_Expr ts2 r2 \<Longrightarrow> ends_operand ts2 r2 \<or> ts2 = r2"
  "g_exprp ts3 r3 \<Longrightarrow> ends_operand ts3 r3"
  "g_Exprp ts4 r4 \<Longrightarrow> ends_operand ts4 r4 \<or> ts4 = r4"
  "g_exprpp ts5 r5 \<Longrightarrow> ends_operand ts5 r5"
  "g_exprppp ts6 r6 \<Longrightarrow> ends_operand ts6 r6"
proof (induct rule: g_expr_g_Expr_g_exprp_g_Exprp_g_exprpp_g_exprppp.inducts)
  case (expr ts r1 r2)
  then show ?case using ends_operand_trans by blast
next
  case (Expr_add t ts r1 r2)
  then show ?case using ends_operand_trans ends_operand_Cons by blast
next
  case (Expr_sub t ts r1 r2)
  then show ?case using ends_operand_trans ends_operand_Cons by blast
next
  case (Expr_eps ts)
  then show ?case by simp
next
  case (exprp ts r1 r2)
  then show ?case using ends_operand_trans by blast
next
  case (Exprp_mul t ts r1 r2)
  then show ?case using ends_operand_trans ends_operand_Cons by blast
next
  case (Exprp_div t ts r1 r2)
  then show ?case using ends_operand_trans ends_operand_Cons by blast
next
  case (Exprp_eps ts)
  then show ?case by simp
next
  case (exprpp_exp ts t r1 r2)
  have "ends_operand (t # r1) r2" using exprpp_exp(5) by (rule ends_operand_Cons)
  then show ?case using exprpp_exp(2) ends_operand_trans by blast
next
  case (exprpp_one ts r)
  then show ?case by simp
next
  case (exprppp_atom t ts)
  then show ?case by (simp add: ends_operand_single)
next
  case (exprppp_paren t1 ts t2 r)
  have "ends_operand (t2 # r) r" using exprppp_paren(4) by (simp add: ends_operand_single)
  then have "ends_operand ts r" using exprppp_paren(3) ends_operand_trans by blast
  then show ?case by (rule ends_operand_Cons)
qed

lemma trailing_operator_invalid: "\<not> g_expr (lexed_input ''a+'') []"
proof
  assume "g_expr (lexed_input ''a+'') []"
  then have "ends_operand (lexed_input ''a+'') []" by (rule grammar_ends_operand(1))
  moreover have "lexed_input ''a+'' =
      [\<lparr>tok_type = ATOM, tok_string = ''a''\<rparr>, \<lparr>tok_type = ADD, tok_string = ''+''\<rparr>]"
    by code_simp
  ultimately show False by (simp add: ends_operand_def)
qed

text \<open>
  C2, as amended: \<open>expr\<close> has no error result. For every token list it returns a tree,
  and when the token list is not a complete expression of the grammar, the tree has a
  \<open>NULL\<close> child or the cursor is left on unconsumed tokens. For \<open>(a+b\<close> the tree has a
  \<open>NULL\<close> child, nothing is consumed and \<open>Invalid input!\<close> is printed; for \<open>a+\<close> the tree
  has a \<open>NULL\<close> child, all tokens are consumed and nothing is printed; for \<open>a+*b\<close> the tree
  has a \<open>NULL\<close> child, \<open>Invalid input!\<close> is printed, parsing goes on to consume \<open>*b\<close>, and
  the renders are \<open>a+(*b)\<close>, \<open>a b * + \<close> and \<open>+ a * b \<close>.
\<close>

theorem parse_failure_is_null_child:
  "(\<exists>n rest ms. expr ts = (Some n, rest, ms) \<and>
      (\<not> g_expr ts [] \<longrightarrow> \<not> null_free n \<or> rest \<noteq> [])) \<and>
   map_option null_free (fst (expr (lexed_input ''(a+b''))) = Some False \<and>
   cur (expr (lexed_input ''(a+b'')) = lexed_input ''(a+b'' \<and>
   snd (snd (expr (lexed_input ''(a+b''))) = [Invalid_input] \<and>
   map_option null_free (fst (expr (lexed_input ''a+''))) = Some False \<and>
   cur (expr (lexed_input ''a+'')) = [] \<and>
   snd (snd (expr (lexed_input ''a+''))) = [] \<and>
   map_option null_free (fst (expr (lexed_input ''a+*b''))) = Some False \<and>
   cur (expr (lexed_input ''a+*b'')) = [] \<and>
   snd (snd (expr (lexed_input ''a+*b''))) = [Invalid_input] \<and>
   main_output ''a+*b'' = (Some ''a+(*b)'', Some ''a b * + '', Some ''+ a * b '')"
proof -
  have general: "\<exists>n rest ms. expr ts = (Some n, rest, ms) \<and>
      (\<not> g_expr ts [] \<longrightarrow> \<not> null_free n \<or> rest \<noteq> [])"
  proof -
    obtain c rest ms where e: "expr ts = (c, rest, ms)" by (cases "expr ts") auto
    then obtain n where n: "c = Some n"
      by (auto simp: expr.simps[of ts] split: prod.splits simp del: exprp.simps)
    have "g_expr ts []" if "null_free n" "rest = []"
      using parser_sound(1)[of ts] e n that by simp
    then show ?thesis using e n by blast
  qed
  have 1: "map_option null_free (fst (expr (lexed_input ''(a+b''))) = Some False" by code_simp
  have 2: "cur (expr (lexed_input ''(a+b'')) = lexed_input ''(a+b''" by code_simp
  have 3: "snd (snd (expr (lexed_input ''(a+b''))) = [Invalid_input]" by code_simp
  have 4: "map_option null_free (fst (expr (lexed_input ''a+''))) = Some False" by code_simp
  have 5: "cur (expr (lexed_input ''a+'')) = []" by code_simp
  have 6: "snd (snd (expr (lexed_input ''a+''))) = []" by code_simp
  have 7: "map_option null_free (fst (expr (lexed_input ''a+*b''))) = Some False" by code_simp
  have 8: "cur (expr (lexed_input ''a+*b'')) = []" by code_simp
  have 9: "snd (snd (expr (lexed_input ''a+*b''))) = [Invalid_input]" by code_simp
  have 10: "main_output ''a+*b'' = (Some ''a+(*b)'', Some ''a b * + '', Some ''+ a * b '')"
    by code_simp
  show ?thesis using general 1 2 3 4 5 6 7 8 9 10 by blast
qed

text \<open>The hypothesis holds at \<open>a+\<close>, which is not an expression of the grammar.\<close>

theorem parse_failure_is_null_child_witness:
  "\<not> g_expr (lexed_input ''a+'') [] \<and>
   map_option null_free (fst (expr (lexed_input ''a+''))) = Some False \<and>
   cur (expr (lexed_input ''a+'')) = []"
proof -
  obtain n rest ms where e: "expr (lexed_input ''a+'') = (Some n, rest, ms)"
    and h: "\<not> g_expr (lexed_input ''a+'') [] \<longrightarrow> \<not> null_free n \<or> rest \<noteq> []"
    using parse_failure_is_null_child[of "lexed_input ''a+''"] by blast
  have r: "cur (expr (lexed_input ''a+'')) = []" by code_simp
  then have "rest = []" using e by (simp add: cur_def)
  then have "\<not> null_free n" using h trailing_operator_invalid by blast
  then show ?thesis using e r trailing_operator_invalid by simp
qed

text \<open>
  C2 as the specification words it: parsing \<open>a+\<close> does not fail. \<open>expr\<close> returns a tree,
  prints nothing, and the three renders are produced.
\<close>

theorem parse_error_counterexample:
  "fst (expr (lexed_input ''a+'')) \<noteq> None \<and>
   snd (snd (expr (lexed_input ''a+''))) = [] \<and>
   main_output ''a+'' = (Some ''a+'', Some ''a + '', Some ''+ a '')"
  by code_simp

subsection \<open>The lookahead of \<open>exprpp\<close>\<close>

text \<open>\<open>(a+(b))^c\<close> is a complete expression of the grammar.\<close>

lemma nested_example_tokens: "lexed_input ''(a+(b))^c'' =
   [\<lparr>tok_type = LPAREN, tok_string = ''(''\<rparr>, \<lparr>tok_type = ATOM, tok_string = ''a''\<rparr>,
    \<lparr>tok_type = ADD, tok_string = ''+''\<rparr>, \<lparr>tok_type = LPAREN, tok_string = ''(''\<rparr>,
    \<lparr>tok_type = ATOM, tok_string = ''b''\<rparr>, \<lparr>tok_type = RPAREN, tok_string = '')''\<rparr>,
    \<lparr>tok_type = RPAREN, tok_string = '')''\<rparr>, \<lparr>tok_type = EXP, tok_string = ''^''\<rparr>,
    \<lparr>tok_type = ATOM, tok_string = ''c''\<rparr>]"
  by code_simp

lemma atom_is_expr: "tok_type t = ATOM \<Longrightarrow> g_expr (t # r) r"
  by (blast intro: exprppp_atom exprpp_one Exprp_eps exprp Expr_eps expr)

lemma atom_is_exprp: "tok_type t = ATOM \<Longrightarrow> g_exprp (t # r) r"
  by (blast intro: exprppp_atom exprpp_one Exprp_eps exprp)

lemma nested_example_valid: "g_expr (lexed_input ''(a+(b))^c'') []"
proof -
  let ?a = "\<lparr>tok_type = ATOM, tok_string = ''a''\<rparr>"
  let ?b = "\<lparr>tok_type = ATOM, tok_string = ''b''\<rparr>"
  let ?c = "\<lparr>tok_type = ATOM, tok_string = ''c''\<rparr>"
  let ?l = "\<lparr>tok_type = LPAREN, tok_string = ''(''\<rparr>"
  let ?r = "\<lparr>tok_type = RPAREN, tok_string = '')''\<rparr>"
  let ?p = "\<lparr>tok_type = ADD, tok_string = ''+''\<rparr>"
  let ?e = "\<lparr>tok_type = EXP, tok_string = ''^''\<rparr>"
  let ?tail = "[?r, ?e, ?c]"
  have b: "g_exprp (?l # ?b # ?r # ?tail) ?tail"
    by (rule exprp[OF exprpp_one[OF exprppp_paren[OF _ atom_is_expr]] Exprp_eps]) simp_all
  have inner: "g_expr (?a # ?p # ?l # ?b # ?r # ?tail) ?tail"
    by (rule expr[OF atom_is_exprp Expr_add[OF _ b Expr_eps]]) simp_all
  have base: "g_exprppp (?l # ?a # ?p # ?l # ?b # ?r # ?tail) [?e, ?c]"
    by (rule exprppp_paren[OF _ inner]) simp_all
  have c: "g_exprpp [?c] []"
    by (rule exprpp_one[OF exprppp_atom]) simp
  have "g_exprpp (?l # ?a # ?p # ?l # ?b # ?r # ?tail) []"
    by (rule exprpp_exp[OF base _ c]) simp
  then have "g_expr (?l # ?a # ?p # ?l # ?b # ?r # ?tail) []"
    by (blast intro: exprp Exprp_eps expr Expr_eps)
  then show ?thesis by (simp add: nested_example_tokens)
qed

text \<open>
  Following the specification (section 4.2, "scan forward over a balanced-parenthesis run
  to find that boundary token"): the tokens after the \<open>)\<close> that matches the \<open>(\<close> at the
  head of the list. The first argument counts the parentheses that are open.
\<close>

fun skip_balanced :: "nat \<Rightarrow> token list \<Rightarrow> token list option" where
  "skip_balanced depth [] = None"
| "skip_balanced depth (t # ts) =
     (if tok_type t = LPAREN then skip_balanced (Suc depth) ts
      else if tok_type t = RPAREN then
        (if depth \<le> 1 then Some ts else skip_balanced (depth - 1) ts)
      else skip_balanced depth ts)"

definition spec_boundary :: "token list \<Rightarrow> token list option" where
  "spec_boundary ts = skip_balanced 0 ts"

text \<open>
  C1 at \<open>(a+(b))^c\<close>, a complete expression of the grammar, and at \<open>((a)^b)\<close>. The
  lookahead loop of \<open>exprpp\<close> stops at the first
  \<open>)\<close>, whichever \<open>(\<close> it closes. In \<open>(a+(b))^c\<close> the token after the matching \<open>)\<close> is
  \<open>^\<close>, the loop looks at the \<open>)\<close> after \<open>b\<close> instead, and \<open>exprpp\<close> takes the production
  without \<open>^\<close>, leaving \<open>^ c\<close> unconsumed. In \<open>((a)^b)\<close> nothing follows the matching \<open>)\<close>,
  the loop finds the \<open>^\<close> after the inner \<open>)\<close>, and \<open>exprpp\<close> takes the production with
  \<open>^\<close>, whose operator and right operand are then \<open>NULL\<close>.
\<close>

theorem exprpp_lookahead_first_rparen:
  "g_expr (lexed_input ''(a+(b))^c'') [] \<and>
   map tok_type (tl (lookahead_loop (lexed_input ''(a+(b))^c''))) = [RPAREN, EXP, ATOM] \<and>
   map_option (map tok_type) (spec_boundary (lexed_input ''(a+(b))^c'')) = Some [EXP, ATOM] \<and>
   map_option num_childs (fst (exprpp (lexed_input ''(a+(b))^c''))) = Some 1 \<and>
   map tok_type (cur (exprpp (lexed_input ''(a+(b))^c''))) = [EXP, ATOM] \<and>
   map tok_type (tl (lookahead_loop (lexed_input ''((a)^b)''))) = [EXP, ATOM, RPAREN] \<and>
   spec_boundary (lexed_input ''((a)^b)'') = Some [] \<and>
   map_option num_childs (fst (exprpp (lexed_input ''((a)^b)''))) = Some 3 \<and>
   map_option (\<lambda>n. tl (child_ptrs n)) (fst (exprpp (lexed_input ''((a)^b)''))) = Some [None, None]"
proof -
  have "map tok_type (tl (lookahead_loop (lexed_input ''(a+(b))^c''))) = [RPAREN, EXP, ATOM] \<and>
   map_option (map tok_type) (spec_boundary (lexed_input ''(a+(b))^c'')) = Some [EXP, ATOM] \<and>
   map_option num_childs (fst (exprpp (lexed_input ''(a+(b))^c''))) = Some 1 \<and>
   map tok_type (cur (exprpp (lexed_input ''(a+(b))^c''))) = [EXP, ATOM] \<and>
   map tok_type (tl (lookahead_loop (lexed_input ''((a)^b)''))) = [EXP, ATOM, RPAREN] \<and>
   spec_boundary (lexed_input ''((a)^b)'') = Some [] \<and>
   map_option num_childs (fst (exprpp (lexed_input ''((a)^b)''))) = Some 3 \<and>
   map_option (\<lambda>n. tl (child_ptrs n)) (fst (exprpp (lexed_input ''((a)^b)''))) = Some [None, None]"
    by code_simp
  then show ?thesis using nested_example_valid by blast
qed

subsection \<open>Where a failed sub-parse goes\<close>


























section \<open>The renders\<close>

text \<open>
  The shape of a pre-render: \<open>plain\<close>, it does not start with \<open>(\<close>; or \<open>wrapped\<close>, it is
  some string between \<open>(\<close> and \<open>)\<close>. \<open>leaves_plain\<close>: no lexeme stored in the tree starts
  with \<open>(\<close>, those of the \<open>NLPAREN\<close> nodes apart.
\<close>

definition plain :: "string \<Rightarrow> bool" where
  "plain s = (case s of [] \<Rightarrow> True | c # cs \<Rightarrow> c \<noteq> CHR ''('')"

definition wrapped :: "string \<Rightarrow> bool" where
  "wrapped s = (\<exists>m. s = CHR ''('' # m @ '')'')"

fun leaves_plain :: "pt_node \<Rightarrow> bool" where
  "leaves_plain (Node ty s n cs) =
     ((ty = NLPAREN \<or> plain s) \<and>
      list_all (\<lambda>c. case c of None \<Rightarrow> True | Some k \<Rightarrow> leaves_plain k) cs)"

definition ptr_plain :: "pt_node option \<Rightarrow> bool" where
  "ptr_plain p = (case p of None \<Rightarrow> True | Some k \<Rightarrow> leaves_plain k)"

lemma tok_ok_plain: "tok_ok t \<Longrightarrow> tok_type t \<noteq> LPAREN \<Longrightarrow> plain (tok_string t)"
proof (cases "tok_type t")
  case ATOM
  assume ok: "tok_ok t"
  then have ne: "tok_string t \<noteq> []" by (rule tok_ok_nonempty)
  then obtain c cs where s: "tok_string t = c # cs" by (cases "tok_string t") auto
  have "isalpha c \<or> isdigit c" using ok ATOM s by (auto simp: tok_ok_def)
  then have "c \<noteq> CHR ''(''" using punct_literals by auto
  then show ?thesis using s by (simp add: plain_def)
qed (auto simp: tok_ok_def plain_def)

lemma terminal_plain:
  assumes "list_all tok_ok ts"
  shows "ptr_plain (fst (lparen ts))" "ptr_plain (fst (rparen ts))" "ptr_plain (fst (expo ts))"
    "ptr_plain (fst (mul ts))" "ptr_plain (fst (quo ts))" "ptr_plain (fst (add ts))"
    "ptr_plain (fst (sub ts))" "ptr_plain (fst (atom ts))"
  using assms
  by (auto simp: terminal_defs ptr_plain_def create_node_def tok_ok_plain split: list.splits)

lemma list_all_tl: "list_all P xs \<Longrightarrow> list_all P (tl xs)"
  by (cases xs) simp_all

lemma ptr_plain_node1: "ptr_plain a \<Longrightarrow> leaves_plain (Node ty [] 1 [a])"
  by (simp add: ptr_plain_def plain_def)

lemma ptr_plain_node2: "ptr_plain a \<Longrightarrow> ptr_plain b \<Longrightarrow> leaves_plain (Node ty [] 2 [a, b])"
  by (simp add: ptr_plain_def plain_def)

lemma ptr_plain_node3:
  "ptr_plain a \<Longrightarrow> ptr_plain b \<Longrightarrow> ptr_plain c \<Longrightarrow> leaves_plain (Node ty [] 3 [a, b, c])"
  by (simp add: ptr_plain_def plain_def)

lemma ptr_plain_epsilon: "ptr_plain epsilon"
  by (simp add: ptr_plain_def epsilon_def create_node_def plain_def)

text \<open>The lexemes of a tree are those of the tokens it was built from.\<close>

lemma parser_plain:
  "list_all tok_ok ts1 \<longrightarrow> ptr_plain (fst (expr ts1)) \<and> list_all tok_ok (cur (expr ts1))"
  "list_all tok_ok ts2 \<longrightarrow> ptr_plain (fst (Expr ts2)) \<and> list_all tok_ok (cur (Expr ts2))"
  "list_all tok_ok ts3 \<longrightarrow> ptr_plain (fst (exprp ts3)) \<and> list_all tok_ok (cur (exprp ts3))"
  "list_all tok_ok ts4 \<longrightarrow> ptr_plain (fst (Exprp ts4)) \<and> list_all tok_ok (cur (Exprp ts4))"
  "list_all tok_ok ts5 \<longrightarrow> ptr_plain (fst (exprpp ts5)) \<and> list_all tok_ok (cur (exprpp ts5))"
  "list_all tok_ok ts6 \<longrightarrow> ptr_plain (fst (exprppp ts6)) \<and> list_all tok_ok (cur (exprppp ts6))"
proof (induct ts1 and ts2 and ts3 and ts4 and ts5 and ts6 rule: expr_Expr_exprp_Exprp_exprpp_exprppp.induct)
  case (1 ts)
  show ?case
  proof
    assume ok: "list_all tok_ok ts"
    obtain c0 ts1 m1 where e1: "exprp ts = (c0, ts1, m1)" by (cases "exprp ts") auto
    obtain c1 ts2 m2 where e2: "Expr ts1 = (c1, ts2, m2)" by (cases "Expr ts1") auto
    have a: "ptr_plain c0 \<and> list_all tok_ok ts1" using 1(1) e1 ok by (simp add: cur_def)
    then have b: "ptr_plain c1 \<and> list_all tok_ok ts2"
      using 1(2)[OF e1[symmetric] refl] e2 by (simp add: cur_def)
    show "ptr_plain (fst (expr ts)) \<and> list_all tok_ok (cur (expr ts))"
      using a b e1 e2 ptr_plain_node2[of c0 c1 NEXPR]
      by (simp add: expr.simps[of ts] node2 cur_def ptr_plain_def del: exprp.simps)
  qed
next
  case 2
  show ?case using ptr_plain_node1[OF ptr_plain_epsilon, of NeXPR]
    by (simp add: node1 cur_def ptr_plain_def)
next
  case (3 t rest)
  show ?case
  proof
    assume ok: "list_all tok_ok (t # rest)"
    show "ptr_plain (fst (Expr (t # rest))) \<and> list_all tok_ok (cur (Expr (t # rest)))"
    proof (cases "tok_type t = ADD \<or> tok_type t = SUB")
      case True
      define r0 where "r0 = (if tok_type t = ADD then add (t # rest) else sub (t # rest))"
      obtain c0 ts1 m1 where e0: "r0 = (c0, ts1, m1)" by (cases r0) auto
      obtain c1 ts2 m2 where e1: "exprp ts1 = (c1, ts2, m2)" by (cases "exprp ts1") auto
      obtain c2 ts3 m3 where e2: "Expr ts2 = (c2, ts3, m3)" by (cases "Expr ts2") auto
      have ts1: "ts1 = rest" using e0 terminal_cur(6,7)[of "t # rest"]
        by (auto simp: r0_def cur_def split: if_splits)
      have p0: "ptr_plain c0" using e0 terminal_plain(6,7)[OF ok]
        by (auto simp: r0_def split: if_splits)
      have a: "ptr_plain c1 \<and> list_all tok_ok ts2"
        using 3(1)[OF True r0_def e0[symmetric] refl] e1 ok ts1 by (simp add: cur_def)
      then have b: "ptr_plain c2 \<and> list_all tok_ok ts3"
        using 3(2)[OF True r0_def e0[symmetric] refl e1[symmetric] refl refl] e2
        by (simp add: cur_def)
      show ?thesis
        using True p0 a b e0 e1 e2 ptr_plain_node3[of c0 c1 c2 NeXPR]
        by (simp add: node3 cur_def ptr_plain_def r0_def[symmetric] del: exprp.simps)
    next
      case False
      then show ?thesis using ok ptr_plain_node1[OF ptr_plain_epsilon, of NeXPR]
        by (simp add: node1 cur_def ptr_plain_def)
    qed
  qed
next
  case (4 ts)
  show ?case
  proof
    assume ok: "list_all tok_ok ts"
    obtain c0 ts1 m1 where e1: "exprpp ts = (c0, ts1, m1)" by (cases "exprpp ts") auto
    obtain c1 ts2 m2 where e2: "Exprp ts1 = (c1, ts2, m2)" by (cases "Exprp ts1") auto
    have a: "ptr_plain c0 \<and> list_all tok_ok ts1" using 4(1) e1 ok by (simp add: cur_def)
    then have b: "ptr_plain c1 \<and> list_all tok_ok ts2"
      using 4(2)[OF e1[symmetric] refl] e2 by (simp add: cur_def)
    show "ptr_plain (fst (exprp ts)) \<and> list_all tok_ok (cur (exprp ts))"
      using a b e1 e2 ptr_plain_node2[of c0 c1 NEXPRP]
      by (simp add: exprp.simps[of ts] node2 cur_def ptr_plain_def)
  qed
next
  case 5
  show ?case using ptr_plain_node1[OF ptr_plain_epsilon, of NeXPRP]
    by (simp add: node1 cur_def ptr_plain_def)
next
  case (6 t rest)
  show ?case
  proof
    assume ok: "list_all tok_ok (t # rest)"
    show "ptr_plain (fst (Exprp (t # rest))) \<and> list_all tok_ok (cur (Exprp (t # rest)))"
    proof (cases "tok_type t = MUL \<or> tok_type t = DIV")
      case True
      define r0 where "r0 = (if tok_type t = MUL then mul (t # rest) else quo (t # rest))"
      obtain c0 ts1 m1 where e0: "r0 = (c0, ts1, m1)" by (cases r0) auto
      obtain c1 ts2 m2 where e1: "exprpp ts1 = (c1, ts2, m2)" by (cases "exprpp ts1") auto
      obtain c2 ts3 m3 where e2: "Exprp ts2 = (c2, ts3, m3)" by (cases "Exprp ts2") auto
      have ts1: "ts1 = rest" using e0 terminal_cur(4,5)[of "t # rest"]
        by (auto simp: r0_def cur_def split: if_splits)
      have p0: "ptr_plain c0" using e0 terminal_plain(4,5)[OF ok]
        by (auto simp: r0_def split: if_splits)
      have a: "ptr_plain c1 \<and> list_all tok_ok ts2"
        using 6(1)[OF True r0_def e0[symmetric] refl] e1 ok ts1 by (simp add: cur_def)
      then have b: "ptr_plain c2 \<and> list_all tok_ok ts3"
        using 6(2)[OF True r0_def e0[symmetric] refl e1[symmetric] refl refl] e2
        by (simp add: cur_def)
      show ?thesis
        using True p0 a b e0 e1 e2 ptr_plain_node3[of c0 c1 c2 NeXPRP]
        by (simp add: node3 cur_def ptr_plain_def r0_def[symmetric])
    next
      case False
      then show ?thesis using ok ptr_plain_node1[OF ptr_plain_epsilon, of NeXPRP]
        by (simp add: node1 cur_def ptr_plain_def)
    qed
  qed
next
  case 7
  show ?case by (simp add: cur_def ptr_plain_def)
next
  case (8 t rest)
  let ?one = "let (c0, ts1, m1) = exprppp (t # rest)
              in (Some (set_child (create_node NEXPRPP [] 1) 0 c0), ts1, m1)"
  let ?three = "let (c0, ts1, m1) = exprppp (t # rest);
                    (c1, ts2, m2) = expo ts1;
                    (c2, ts3, m3) = exprpp ts2
                in (Some (set_child (set_child (set_child (create_node NEXPRPP [] 3) 0 c0) 1 c1) 2 c2),
                    ts3, m1 @ m2 @ m3)"
  have one: "ptr_plain (fst ?one) \<and> list_all tok_ok (cur ?one)"
    if a: "ptr_plain (fst (exprppp (t # rest))) \<and> list_all tok_ok (cur (exprppp (t # rest)))"
  proof -
    obtain c0 ts1 m1 where e0: "exprppp (t # rest) = (c0, ts1, m1)"
      by (cases "exprppp (t # rest)") auto
    show ?thesis using a e0 ptr_plain_node1[of c0 NEXPRPP]
      by (simp add: node1 cur_def ptr_plain_def del: exprppp.simps)
  qed
  have three: "ptr_plain (fst ?three) \<and> list_all tok_ok (cur ?three)"
    if a: "ptr_plain (fst (exprppp (t # rest))) \<and> list_all tok_ok (cur (exprppp (t # rest)))"
    and b: "\<And>c0 ts1 m1 c1 ts2 m2.
              exprppp (t # rest) = (c0, ts1, m1) \<Longrightarrow> expo ts1 = (c1, ts2, m2) \<Longrightarrow>
              list_all tok_ok ts2 \<longrightarrow>
                ptr_plain (fst (exprpp ts2)) \<and> list_all tok_ok (cur (exprpp ts2))"
  proof -
    obtain c0 ts1 m1 where e0: "exprppp (t # rest) = (c0, ts1, m1)"
      by (cases "exprppp (t # rest)") auto
    obtain c1 ts2 m2 where e1: "expo ts1 = (c1, ts2, m2)" by (cases "expo ts1") auto
    obtain c2 ts3 m3 where e2: "exprpp ts2 = (c2, ts3, m3)" by (cases "exprpp ts2") auto
    have p0: "ptr_plain c0" "list_all tok_ok ts1" using a e0 by (simp_all add: cur_def)
    have p1: "ptr_plain c1" using terminal_plain(3)[OF p0(2)] e1 by simp
    have "ts2 = tl ts1" using terminal_cur(3)[of ts1] e1 by (simp add: cur_def)
    then have ok2: "list_all tok_ok ts2" using p0(2) list_all_tl by blast
    have p2: "ptr_plain c2 \<and> list_all tok_ok ts3" using b[OF e0 e1] ok2 e2 by (simp add: cur_def)
    show ?thesis using p0 p1 p2 e0 e1 e2 ptr_plain_node3[of c0 c1 c2 NEXPRPP]
      by (simp add: node3 cur_def ptr_plain_def del: exprppp.simps exprpp.simps)
  qed
  show ?case
  proof
    assume ok: "list_all tok_ok (t # rest)"
    show "ptr_plain (fst (exprpp (t # rest))) \<and> list_all tok_ok (cur (exprpp (t # rest)))"
    proof (cases "tok_type t = ATOM")
      case True
      note A = True
      show ?thesis
      proof (cases "next_is_EXP (t # rest)")
        case True
        have b: "\<And>c0 ts1 m1 c1 ts2 m2.
              exprppp (t # rest) = (c0, ts1, m1) \<Longrightarrow> expo ts1 = (c1, ts2, m2) \<Longrightarrow>
              list_all tok_ok ts2 \<longrightarrow>
                ptr_plain (fst (exprpp ts2)) \<and> list_all tok_ok (cur (exprpp ts2))"
          using 8(2)[OF A True] by simp
        have "exprpp (t # rest) = ?three" using A True by (simp del: exprppp.simps exprpp.simps add: exprpp.simps(2)[of t rest])
        then show ?thesis using three[OF 8(1)[OF A True, rule_format, OF ok] b] by simp
      next
        case False
        have "exprpp (t # rest) = ?one" using A False by (simp del: exprppp.simps exprpp.simps add: exprpp.simps(2)[of t rest])
        then show ?thesis using one[OF 8(3)[OF A False, rule_format, OF ok]] by simp
      qed
    next
      case False
      note A = False
      show ?thesis
      proof (cases "lookahead_loop (t # rest) = []")
        case True
        then have "exprpp (t # rest) = (None, t # rest, [Invalid_input])"
          using A by (simp del: exprppp.simps exprpp.simps lookahead_loop.simps add: exprpp.simps(2)[of t rest])
        then show ?thesis using ok by (simp add: cur_def ptr_plain_def)
      next
        case False
        note B = False
        show ?thesis
        proof (cases "next_is_EXP (lookahead_loop (t # rest))")
          case True
          have b: "\<And>c0 ts1 m1 c1 ts2 m2.
              exprppp (t # rest) = (c0, ts1, m1) \<Longrightarrow> expo ts1 = (c1, ts2, m2) \<Longrightarrow>
              list_all tok_ok ts2 \<longrightarrow>
                ptr_plain (fst (exprpp ts2)) \<and> list_all tok_ok (cur (exprpp ts2))"
            using 8(5)[OF A refl B True] by simp
          have "exprpp (t # rest) = ?three" using A B True
            by (simp del: exprppp.simps exprpp.simps lookahead_loop.simps add: exprpp.simps(2)[of t rest] Let_def)
          then show ?thesis using three[OF 8(4)[OF A refl B True, rule_format, OF ok] b] by simp
        next
          case False
          have "exprpp (t # rest) = ?one" using A B False
            by (simp del: exprppp.simps exprpp.simps lookahead_loop.simps add: exprpp.simps(2)[of t rest] Let_def)
          then show ?thesis using one[OF 8(6)[OF A refl B False, rule_format, OF ok]] by simp
        qed
      qed
    qed
  qed
next
  case 9
  show ?case by (simp add: cur_def ptr_plain_def)
next
  case (10 t rest)
  show ?case
  proof
    assume ok: "list_all tok_ok (t # rest)"
    show "ptr_plain (fst (exprppp (t # rest))) \<and> list_all tok_ok (cur (exprppp (t # rest)))"
    proof (cases "tok_type t = ATOM")
      case True
      obtain c0 ts1 m1 where e0: "atom (t # rest) = (c0, ts1, m1)"
        by (cases "atom (t # rest)") auto
      have "ptr_plain c0" using terminal_plain(8)[OF ok] e0 by simp
      moreover have "ts1 = rest" using terminal_cur(8)[of "t # rest"] e0 by (simp add: cur_def)
      ultimately show ?thesis using True ok e0 ptr_plain_node1[of c0 NEXPRPPP]
        by (simp add: node1 cur_def ptr_plain_def)
    next
      case False
      obtain c0 ts1 m1 where e0: "lparen (t # rest) = (c0, ts1, m1)"
        by (cases "lparen (t # rest)") auto
      obtain c1 ts2 m2 where e1: "expr ts1 = (c1, ts2, m2)" by (cases "expr ts1") auto
      obtain c2 ts3 m3 where e2: "rparen ts2 = (c2, ts3, m3)" by (cases "rparen ts2") auto
      have p0: "ptr_plain c0" using terminal_plain(1)[OF ok] e0 by simp
      have ts1: "ts1 = rest" using terminal_cur(1)[of "t # rest"] e0 by (simp add: cur_def)
      have a: "ptr_plain c1 \<and> list_all tok_ok ts2"
        using 10(1)[OF False e0[symmetric] refl] e1 ok ts1 by (simp add: cur_def)
      have p2: "ptr_plain c2" using terminal_plain(2)[of ts2] a e2 by simp
      have "ts3 = tl ts2" using terminal_cur(2)[of ts2] e2 by (simp add: cur_def)
      then have "list_all tok_ok ts3" using a list_all_tl by blast
      then show ?thesis using False p0 a p2 e0 e1 e2 ptr_plain_node3[of c0 c1 c2 NEXPRPPP]
        by (simp add: node3 cur_def ptr_plain_def del: expr.simps)
    qed
  qed
qed


text \<open>
  A pre-render is plain or wrapped: the render of a chain and of a power is wrapped, a
  leaf renders as its lexeme, and every other node renders as one of its children.
\<close>

declare pre_compl_par_chain.simps [simp del] pre_compl_par_loop.simps [simp del]
  open_paren_loop.simps [simp del]

lemma wrapped_extend: "wrapped r \<Longrightarrow> wrapped (r @ x @ '')'')"
  by (auto simp: wrapped_def)

lemma open_paren_loop_prefix: "open_paren_loop d r = Some s \<Longrightarrow> \<exists>x. s = r @ x"
proof (induct d r arbitrary: s rule: open_paren_loop.induct)
  case (1 dummy result)
  show ?case
  proof (cases "num_childs dummy = 3")
    case True
    then obtain d where d: "child_node dummy 2 = Some d"
        and e: "open_paren_loop d (result @ ''('') = Some s"
      using 1(2) by (auto simp: open_paren_loop.simps[of dummy] bind_eq_Some_conv)
    from 1(1)[OF True d e] show ?thesis by auto
  next
    case False
    then show ?thesis using 1(2) by (simp add: open_paren_loop.simps[of dummy])
  qed
qed

lemma child_ptr_plain: "leaves_plain n \<Longrightarrow> child_ptr n i = Some p \<Longrightarrow> ptr_plain p"
  by (cases n) (auto simp: child_ptr_def ptr_plain_def list_all_iff
      split: if_splits option.splits dest!: nth_mem)

lemma pre_compl_par_chain_case:
  "has_chain head = Some True \<Longrightarrow> pre_compl_par (Some head) = pre_compl_par_chain head"
  by (simp add: pre_compl_par.simps(2)[of head])

lemma pre_compl_par_pow_case:
  "has_chain head = Some False \<Longrightarrow> ntype head = NEXPRPP \<and> num_childs head = 3 \<Longrightarrow>
   pre_compl_par (Some head) =
     do {
       p0 \<leftarrow> child_ptr head 0; s0 \<leftarrow> pre_compl_par p0;
       p2 \<leftarrow> child_ptr head 2; s2 \<leftarrow> pre_compl_par p2;
       Some (''('' @ s0 @ ''^'' @ s2 @ '')'')
     }"
  by (simp add: pre_compl_par.simps(2)[of head])

lemma pre_compl_par_leaf_case:
  "ntype head = NADD \<or> ntype head = NSUB \<or> ntype head = NMUL \<or> ntype head = NDIV \<or>
   ntype head = NATOM \<Longrightarrow> pre_compl_par (Some head) = Some (nstring head)"
  by (auto simp add: pre_compl_par.simps(2)[of head] has_chain_def)

lemma pre_compl_par_first_child_case:
  "has_chain head = Some False \<Longrightarrow> \<not> (ntype head = NEXPRPP \<and> num_childs head = 3) \<Longrightarrow>
   (ntype head = NEXPRPPP \<and> num_childs head = 1) \<or>
   ntype head = NEXPR \<or> ntype head = NEXPRP \<or> ntype head = NEXPRPP \<Longrightarrow>
   pre_compl_par (Some head) = do { p0 \<leftarrow> child_ptr head 0; pre_compl_par p0 }"
  by (auto simp add: pre_compl_par.simps(2)[of head])

lemma pre_compl_par_paren_case:
  "ntype head = NEXPRPPP \<Longrightarrow> num_childs head \<noteq> 1 \<Longrightarrow>
   pre_compl_par (Some head) = do { p1 \<leftarrow> child_ptr head 1; pre_compl_par p1 }"
  by (simp add: pre_compl_par.simps(2)[of head] has_chain_def)

lemma pre_compl_par_other_case:
  "ntype head \<in> {NeXPR, NeXPRP, NLPAREN, NRPAREN, NEXP, NEPSILON} \<Longrightarrow>
   pre_compl_par (Some head) = None"
  by (auto simp add: pre_compl_par.simps(2)[of head] has_chain_def)

lemma pre_render_shape:
  "ptr_plain p \<longrightarrow> (\<forall>s. pre_compl_par p = Some s \<longrightarrow> plain s \<or> wrapped s)"
  "\<forall>s. pre_compl_par_chain head = Some s \<longrightarrow> wrapped s"
  "wrapped result \<longrightarrow> (\<forall>s. pre_compl_par_loop dummy result = Some s \<longrightarrow> wrapped s)"
proof (induct p and head and dummy result
    rule: pre_compl_par_pre_compl_par_chain_pre_compl_par_loop.induct)
  case 1
  show ?case by (simp add: plain_def)
next
  case (2 head)
  show ?case
  proof (intro impI allI)
    fix s assume pl: "ptr_plain (Some head)" and eq: "pre_compl_par (Some head) = Some s"
    have lp: "leaves_plain head" using pl by (simp add: ptr_plain_def)
    obtain chain where hc: "has_chain head = Some chain"
      using eq by (cases "has_chain head") (simp_all add: pre_compl_par.simps(2)[of head])
    show "plain s \<or> wrapped s"
    proof (cases chain)
      case True
      then have "pre_compl_par_chain head = Some s"
        using eq hc pre_compl_par_chain_case[of head] by simp
      then show ?thesis using 2(1)[OF hc True] by simp
    next
      case False
      note nc = False
      have hf: "has_chain head = Some False" using hc nc by simp
      show ?thesis
      proof (cases "ntype head = NEXPRPP \<and> num_childs head = 3")
        case True
        have "wrapped s"
          using eq unfolding pre_compl_par_pow_case[OF hf True]
          by (auto simp: wrapped_def bind_eq_Some_conv)
        then show ?thesis by simp
      next
        case False
        note c1 = False
        show ?thesis
        proof (cases "ntype head = NADD \<or> ntype head = NSUB \<or> ntype head = NMUL \<or>
               ntype head = NDIV \<or> ntype head = NATOM")
          case True
          then have "s = nstring head"
            using eq pre_compl_par_leaf_case[OF True] by simp
          moreover have "plain (nstring head)" using lp True by (cases head) auto
          ultimately show ?thesis by simp
        next
          case False
          note c2 = False
          show ?thesis
          proof (cases "ntype head = NEXPRPPP \<and> num_childs head = 1")
            case True
            then obtain p0 where p0: "child_ptr head 0 = Some p0" "pre_compl_par p0 = Some s"
              using eq unfolding pre_compl_par_first_child_case[OF hf c1 disjI1[OF True]]
              by (auto simp: bind_eq_Some_conv)
            show ?thesis
              using 2(4)[OF hc nc c1 c2 True p0(1)] child_ptr_plain[OF lp p0(1)] p0(2) by simp
          next
            case False
            note c3 = False
            show ?thesis
            proof (cases "ntype head = NEXPR \<or> ntype head = NEXPRP \<or> ntype head = NEXPRPP")
              case True
              then obtain p0 where p0: "child_ptr head 0 = Some p0" "pre_compl_par p0 = Some s"
                using eq unfolding pre_compl_par_first_child_case[OF hf c1 disjI2[OF True]]
                by (auto simp: bind_eq_Some_conv)
              show ?thesis
                using 2(5)[OF hc nc c1 c2 c3 True p0(1)] child_ptr_plain[OF lp p0(1)] p0(2)
                by simp
            next
              case False
              note c4 = False
              show ?thesis
              proof (cases "ntype head = NEXPRPPP")
                case True
                have n1: "num_childs head \<noteq> 1" using c3 True by simp
                obtain p1 where p1: "child_ptr head 1 = Some p1" "pre_compl_par p1 = Some s"
                  using eq unfolding pre_compl_par_paren_case[OF True n1]
                  by (auto simp: bind_eq_Some_conv)
                show ?thesis
                  using 2(6)[OF hc nc c1 c2 c3 c4 True p1(1)] child_ptr_plain[OF lp p1(1)] p1(2)
                  by simp
              next
                case False
                then have "ntype head \<in> {NeXPR, NeXPRP, NLPAREN, NRPAREN, NEXP, NEPSILON}"
                  using c1 c2 c4 by (cases "ntype head") auto
                then show ?thesis using eq pre_compl_par_other_case by simp
              qed
            qed
          qed
        qed
      qed
    qed
  qed
next
  case (3 head)
  show ?case
  proof (intro allI impI)
    fix s assume eq: "pre_compl_par_chain head = Some s"
    then obtain c1 d opens p0 s0 opr p1 s1 where b:
      "child_node head 1 = Some c1" "child_node c1 2 = Some d"
      "open_paren_loop d ''('' = Some opens" "child_ptr head 0 = Some p0"
      "pre_compl_par p0 = Some s0" "child_node c1 0 = Some opr"
      "child_ptr c1 1 = Some p1" "pre_compl_par p1 = Some s1"
      "pre_compl_par_loop d (opens @ s0 @ nstring opr @ s1 @ '')'') = Some s"
      unfolding pre_compl_par_chain.simps[of head] bind_eq_Some_conv by blast
    obtain x where "opens = ''('' @ x" using open_paren_loop_prefix[OF b(3)] by blast
    then have "wrapped (opens @ s0 @ nstring opr @ s1 @ '')'')" by (simp add: wrapped_def)
    then show "wrapped s"
      using 3(3)[OF b(1) b(2) b(3) b(4) b(5) b(6) b(7) b(8)] b(9) by simp
  qed
next
  case (4 dummy result)
  show ?case
  proof (intro allI impI)
    fix s assume w: "wrapped result" and eq: "pre_compl_par_loop dummy result = Some s"
    show "wrapped s"
    proof (cases "num_childs dummy \<noteq> 1")
      case True
      then obtain opr p1 s1 d where b:
        "child_node dummy 0 = Some opr" "child_ptr dummy 1 = Some p1"
        "pre_compl_par p1 = Some s1" "child_node dummy 2 = Some d"
        "pre_compl_par_loop d (result @ nstring opr @ s1 @ '')'') = Some s"
        using eq by (auto simp: pre_compl_par_loop.simps[of dummy] bind_eq_Some_conv)
      have "wrapped (result @ nstring opr @ s1 @ '')'')"
        using wrapped_extend[OF w, of "nstring opr @ s1"] by simp
      then show ?thesis using 4(2)[OF True b(1) b(2) b(3) b(4)] b(5) by simp
    next
      case False
      then show ?thesis using eq w by (simp add: pre_compl_par_loop.simps[of dummy])
    qed
  qed
qed


lemma lexed_input_ok: "list_all tok_ok (lexed_input u)"
  using lexer_loop_spec[of u]
  by (cases "lexer_loop [] u") (simp_all add: lexed_input_def input_lexer_loop)

lemma parse_tree_plain: "ptr_plain (parse_tree u)"
  using parser_plain(1)[of "lexed_input u"] lexed_input_ok[of u] by (simp add: parse_tree_def)

lemma strip_parens_wrapped: "strip_parens (CHR ''('' # m @ '')'') = m"
  by (simp add: strip_parens_def)

lemma strip_parens_plain: "plain s \<Longrightarrow> strip_parens s = s"
  by (cases s) (simp_all add: strip_parens_def plain_def)

text \<open>
  C8, as amended: for every input, the pre-render of the parse tree either has the form
  \<open>(m)\<close>, and then the render is \<open>m\<close>, with exactly that one pair stripped, or it does not
  start with \<open>(\<close>, and then the render is the pre-render itself. The parentheses of the
  input are never copied to the output: a parenthesized primary renders as the
  expression inside it, whatever its parenthesis children are. So \<open>(a)\<close> renders as \<open>a\<close>,
  \<open>(a)*b\<close> as \<open>a*b\<close>, \<open>(a+b)\<close> as \<open>a+b\<close>, and both \<open>(a+b)*c\<close> and \<open>((a+b))*c\<close> as
  \<open>(a+b)*c\<close>.
\<close>

theorem user_parens_not_copied:
  "(pre_compl_par (parse_tree u) = Some s \<longrightarrow>
      (\<exists>m. s = CHR ''('' # m @ '')'' \<and> compl_par (parse_tree u) = Some m) \<or>
      (plain s \<and> compl_par (parse_tree u) = Some s)) \<and>
   pre_compl_par (Some (Node NEXPRPPP x 3 [l, e, r])) = pre_compl_par e \<and>
   strip_parens [] = [] \<and>
   strip_parens (c # cs) = (if c = CHR ''('' then butlast cs else c # cs) \<and>
   compl_par (parse_tree ''(a)'') = Some ''a'' \<and>
   compl_par (parse_tree ''(a)*b'') = Some ''a*b'' \<and>
   compl_par (parse_tree ''(a+b)'') = Some ''a+b'' \<and>
   compl_par (parse_tree ''(a+b)*c'') = Some ''(a+b)*c'' \<and>
   compl_par (parse_tree ''((a+b))*c'') = Some ''(a+b)*c''"
proof -
  have 0: "(\<exists>m. s = CHR ''('' # m @ '')'' \<and> compl_par (parse_tree u) = Some m) \<or>
      (plain s \<and> compl_par (parse_tree u) = Some s)"
    if eq: "pre_compl_par (parse_tree u) = Some s"
  proof -
    have "plain s \<or> wrapped s"
      using pre_render_shape(1)[of "parse_tree u"] parse_tree_plain eq by blast
    then show ?thesis
    proof
      assume "plain s"
      then show ?thesis using eq by (simp add: compl_par_def strip_parens_plain)
    next
      assume "wrapped s"
      then obtain m where "s = CHR ''('' # m @ '')''" unfolding wrapped_def by blast
      then show ?thesis using eq strip_parens_wrapped[of m] by (simp add: compl_par_def)
    qed
  qed
  have 1: "pre_compl_par (Some (Node NEXPRPPP x 3 [l, e, r])) = pre_compl_par e"
    by (simp add: has_chain_def child_ptr_def)
  have 2: "strip_parens [] = [] \<and>
      strip_parens (c # cs) = (if c = CHR ''('' then butlast cs else c # cs)"
    by (simp add: strip_parens_def)
  have 3: "compl_par (parse_tree ''(a)'') = Some ''a''" by code_simp
  have 4: "compl_par (parse_tree ''(a)*b'') = Some ''a*b''" by code_simp
  have 5: "compl_par (parse_tree ''(a+b)'') = Some ''a+b''" by code_simp
  have 6: "compl_par (parse_tree ''(a+b)*c'') = Some ''(a+b)*c''" by code_simp
  have 7: "compl_par (parse_tree ''((a+b))*c'') = Some ''(a+b)*c''" by code_simp
  show ?thesis using 0 1 2 3 4 5 6 7 by blast
qed

text \<open>At \<open>(a+b)*c\<close> the pre-render is \<open>((a+b)*c)\<close>, and the render is \<open>(a+b)*c\<close>.\<close>

theorem user_parens_not_copied_witness:
  "pre_compl_par (parse_tree ''(a+b)*c'') = Some ''((a+b)*c)'' \<and>
   compl_par (parse_tree ''(a+b)*c'') = Some ''(a+b)*c''"
proof -
  have pre: "pre_compl_par (parse_tree ''(a+b)*c'') = Some ''((a+b)*c)''" by code_simp
  have "\<not> plain ''((a+b)*c)''" by (simp add: plain_def)
  then obtain m where m: "''((a+b)*c)'' = CHR ''('' # m @ '')''"
      "compl_par (parse_tree ''(a+b)*c'') = Some m"
    using user_parens_not_copied[of "''(a+b)*c''" "''((a+b)*c)''"] pre by blast
  from m(1) have "m @ '')'' = ''(a+b)*c'' @ '')''" by simp
  then have "m = ''(a+b)*c''" by (simp only: append_same_eq)
  then show ?thesis using pre m(2) by simp
qed

text \<open>
  C8 as the specification words it: parentheses the user wrote around a primary do not
  survive. The input \<open>(a)*b\<close> renders as \<open>a*b\<close>, and the parentheses of \<open>(a+b)\<close> are
  stripped.
\<close>

theorem user_parens_not_copied_counterexample:
  "pre_compl_par (parse_tree ''(a)*b'') = Some ''(a*b)'' \<and>
   compl_par (parse_tree ''(a)*b'') = Some ''a*b'' \<and>
   compl_par (parse_tree ''(a+b)'') = Some ''a+b''"
  by code_simp

text \<open>
  C5, as amended: the input \<open>a-b-c\<close> is grouped to the left, \<open>(a-b)-c\<close>; its postfix
  render is \<open>a b - c - \<close> and its prefix render is \<open>- - a b c \<close>. Every atom and every
  operator is emitted followed by one space, so both renders end in a space.
\<close>

theorem left_assoc_renders:
  "compl_par (parse_tree ''a-b-c'') = Some ''(a-b)-c'' \<and>
   postfix (parse_tree ''a-b-c'') = Some ''a b - c - '' \<and>
   prefix (parse_tree ''a-b-c'') = Some ''- - a b c ''"
  by code_simp

text \<open>C5 as the specification words it (renders without the final space) does not hold.\<close>

theorem left_assoc_renders_counterexample:
  "postfix (parse_tree ''a-b-c'') \<noteq> Some ''a b - c -'' \<and>
   prefix (parse_tree ''a-b-c'') \<noteq> Some ''- - a b c''"
  by code_simp

text \<open>
  C6, as amended: the input \<open>a^b^c\<close> is grouped to the right, \<open>a^(b^c)\<close>; its postfix
  render is \<open>a b c ^ ^ \<close> and its prefix render is \<open>^ a ^ b c \<close>, each ending in a space.
\<close>

theorem right_assoc_renders:
  "compl_par (parse_tree ''a^b^c'') = Some ''a^(b^c)'' \<and>
   postfix (parse_tree ''a^b^c'') = Some ''a b c ^ ^ '' \<and>
   prefix (parse_tree ''a^b^c'') = Some ''^ a ^ b c ''"
  by code_simp

text \<open>C6 as the specification words it (renders without the final space) does not hold.\<close>

theorem right_assoc_renders_counterexample:
  "postfix (parse_tree ''a^b^c'') \<noteq> Some ''a b c ^ ^'' \<and>
   prefix (parse_tree ''a^b^c'') \<noteq> Some ''^ a ^ b c''"
  by code_simp

text \<open>
  C7, as amended: for the input \<open>(a+3)+var^(b+282*c)\<close> the three strings that \<open>main\<close>
  prints are \<open>(a+3)+(var^(b+(282*c)))\<close>, \<open>a 3 + var b 282 c * + ^ + \<close> and
  \<open>+ + a 3 ^ var + b * 282 c \<close>; the postfix and the prefix render end in a space.
\<close>

theorem end_to_end_example:
  "main_output ''(a+3)+var^(b+282*c)'' =
     (Some ''(a+3)+(var^(b+(282*c)))'',
      Some ''a 3 + var b 282 c * + ^ + '',
      Some ''+ + a 3 ^ var + b * 282 c '')"
  by code_simp

text \<open>C7 as the specification words it: the fully-parenthesized render is as stated, the
  postfix and prefix renders are not (they lack the final space).\<close>

theorem end_to_end_example_counterexample:
  "main_output ''(a+3)+var^(b+282*c)'' \<noteq>
     (Some ''(a+3)+(var^(b+(282*c)))'',
      Some ''a 3 + var b 282 c * + ^ +'',
      Some ''+ + a 3 ^ var + b * 282 c'')"
  by code_simp

text \<open>
  C3 at \<open>(a+(b))^c\<close>, a complete expression of the grammar: the parser returns with \<open>^ c\<close>
  unconsumed, and the three renders contain neither the operator \<open>^\<close> nor the atom \<open>c\<close>.
\<close>

theorem renders_drop_tokens:
  "g_expr (lexed_input ''(a+(b))^c'') [] \<and>
   map tok_type (cur (expr (lexed_input ''(a+(b))^c''))) = [EXP, ATOM] \<and>
   main_output ''(a+(b))^c'' = (Some ''a+b'', Some ''a b + '', Some ''+ a b '')"
proof -
  have "map tok_type (cur (expr (lexed_input ''(a+(b))^c''))) = [EXP, ATOM] \<and>
    main_output ''(a+(b))^c'' = (Some ''a+b'', Some ''a b + '', Some ''+ a b '')"
    by code_simp
  then show ?thesis using nested_example_valid by blast
qed

text \<open>
  C4 at \<open>(a+b+c)^d\<close>. The input is parsed completely, into a tree without \<open>NULL\<close>, and
  its fully-parenthesized render is \<open>((a+b)+c)^d\<close>; parsing that string again gives a tree
  whose postfix and prefix renders have lost \<open>^\<close> and \<open>d\<close>.
\<close>

theorem round_trip_fails:
  "map_option null_free (parse_tree ''(a+b+c)^d'') = Some True \<and>
   cur (expr (lexed_input ''(a+b+c)^d'')) = [] \<and>
   main_output ''(a+b+c)^d'' =
     (Some ''((a+b)+c)^d'', Some ''a b + c + d ^ '', Some ''^ + + a b c d '') \<and>
   main_output ''((a+b)+c)^d'' =
     (Some ''(a+b)+c'', Some ''a b + c + '', Some ''+ + a b c '')"
  by code_simp

end
